theory Spec2Isabelle
  imports Main
begin

section \<open>Errors, outcomes and JavaScript values\<close>

text \<open>
  Exceptions are values. \<open>Error msg\<close> is a JavaScript \<open>new Error(msg)\<close>; the other
  constructors are the exceptions the DOM methods and property accesses on
  \<open>null\<close>/\<open>undefined\<close> raise.
\<close>

datatype error = Error string | TypeError | NotFoundError | HierarchyRequestError

text \<open>
  A call either does not return (\<open>None\<close>: the sibling walks of \<open>dom.ts\<close> can run
  forever), throws (\<open>Some (Inl (e, s))\<close>) or returns a value (\<open>Some (Inr x)\<close>). A
  thrown exception comes with the state \<open>s\<close> at the \<open>throw\<close>: what the call had done
  to the DOM by then stays done.
\<close>

type_synonym ('s, 'a) result = "(error \<times> 's + 'a) option"

definition andThen :: "('s, 'a) result \<Rightarrow> ('a \<Rightarrow> ('s, 'b) result) \<Rightarrow> ('s, 'b) result" where
  "andThen m f = (case m of None \<Rightarrow> None | Some (Inl e) \<Rightarrow> Some (Inl e) | Some (Inr x) \<Rightarrow> f x)"

text \<open>
  The values of type \<open>any\<close> that keys and item templates produce. Strict equality
  \<open>===\<close> is HOL equality on this type (objects carry their identity; \<open>NaN\<close> is left out).
  An object carries the kinds of the top-level nodes it renders to.
\<close>

type_synonym nid = nat

datatype nkind = Comment string | Text string | Element string

datatype any = Undefined | Num int | Str string | Obj nat "nkind list"

text \<open>JavaScript arrays: a slot is a hole (reads \<open>undefined\<close>), \<open>null\<close> or an object.\<close>

datatype 'a slot = Hole | Null | Ref 'a

definition at :: "'a slot list \<Rightarrow> int \<Rightarrow> 'a slot" where
  "at xs i = (if 0 \<le> i \<and> i < int (length xs) then xs ! nat i else Hole)"

definition put :: "'a slot list \<Rightarrow> int \<Rightarrow> 'a slot \<Rightarrow> 'a slot list" where
  "put xs i v =
     (if i < 0 then xs
      else if i < int (length xs) then xs[nat i := v]
      else xs @ replicate (nat i - length xs) Hole @ [v])"

definition elt :: "any list \<Rightarrow> int \<Rightarrow> any" where
  "elt xs i = (if 0 \<le> i \<and> i < int (length xs) then xs ! nat i else Undefined)"

section \<open>Template cache (template-factory.ts)\<close>

text \<open>
  A \<open>TemplateResult\<close> refers to its \<open>TemplateStringsArray\<close> by address; the arrays are
  frozen, so their contents are a fixed function \<open>H\<close> of the address. A \<open>Template\<close> is
  an object: its identity is the allocation number \<open>tid\<close>.
\<close>

record TemplateResult =
  type :: string
  strings :: nat

record Template =
  tid :: nat
  compiledFrom :: TemplateResult

record caches =
  templateCaches :: "string \<rightharpoonup> (nat \<rightharpoonup> Template)"
  keyedTemplates :: "string \<rightharpoonup> Template"
  allocated :: nat

definition noCaches :: caches where
  "noCaches = \<lparr>templateCaches = Map.empty, keyedTemplates = Map.empty, allocated = 0\<rparr>"

text \<open>\<open>Array.prototype.join\<close>.\<close>

fun join :: "string list \<Rightarrow> string \<Rightarrow> string" where
  "join [] sep = []"
| "join [x] sep = x"
| "join (x # y # ys) sep = x @ sep @ join (y # ys) sep"

text \<open>
  \<open>templateFactory\<close>; \<open>marker\<close> (a constant of \<open>template.ts\<close>) and the contents \<open>H\<close> of
  the strings arrays are parameters.
\<close>

definition templateFactory ::
  "string \<Rightarrow> (nat \<Rightarrow> string list) \<Rightarrow> TemplateResult \<Rightarrow> caches \<Rightarrow> Template \<times> caches" where
  "templateFactory marker H result c =
     (let (templateCache, c1) =
            (case templateCaches c (type result) of
               None \<Rightarrow> (Map.empty,
                  c\<lparr>templateCaches := (templateCaches c)(type result \<mapsto> Map.empty)\<rparr>)
             | Some m \<Rightarrow> (m, c))
      in case templateCache (strings result) of
           Some template \<Rightarrow> (template, c1)
         | None \<Rightarrow>
             (let key = join (H (strings result)) marker;
                  (template, c2) =
                    (case keyedTemplates c1 key of
                       None \<Rightarrow>
                         (let t = \<lparr>tid = allocated c1, compiledFrom = result\<rparr>
                          in (t, c1\<lparr>keyedTemplates := (keyedTemplates c1)(key \<mapsto> t),
                                    allocated := allocated c1 + 1\<rparr>))
                     | Some t \<Rightarrow> (t, c1))
              in (template,
                  c2\<lparr>templateCaches :=
                       (templateCaches c2)(type result \<mapsto> templateCache(strings result \<mapsto> template))\<rparr>)))"

text \<open>A sequence of renders: the cache after calling \<open>templateFactory\<close> on each result.\<close>

fun renders :: "string \<Rightarrow> (nat \<Rightarrow> string list) \<Rightarrow> TemplateResult list \<Rightarrow> caches \<Rightarrow> caches" where
  "renders marker H [] c = c"
| "renders marker H (r # rs) c = renders marker H rs (snd (templateFactory marker H r c))"

section \<open>The DOM\<close>

text \<open>
  A part is a pair of marker nodes. \<open>NodePart\<close> is a class of \<open>lit-html.js\<close>; repeat only
  reads its \<open>startNode\<close> and \<open>endNode\<close>, which are set once, by \<open>insertAfterNode\<close>.
\<close>

record NodePart =
  startNode :: nid
  endNode :: nid

text \<open>
  The trace is instrumentation: the helpers of \<open>repeat.ts\<close> append the call they
  perform, so that the number of creations, moves and removals of a pass can be stated.
  No function reads it.
\<close>

datatype event =
    Created NodePart
  | Updated NodePart any
  | Moved NodePart
  | Removed NodePart
  | Notified nid
  | MapsGenerated

record dom =
  nodeKind :: "nid \<Rightarrow> nkind"
  parentNode :: "nid \<Rightarrow> nid option"
  childNodes :: "nid \<Rightarrow> nid list"
  nextId :: nid
  trace :: "event list"

text \<open>The outcome of a call that works on the DOM.\<close>

type_synonym 'a outcome = "(dom, 'a) result"

definition logEvent :: "event \<Rightarrow> dom \<Rightarrow> dom" where
  "logEvent e d = d\<lparr>trace := trace d @ [e]\<rparr>"

fun next_in :: "nid list \<Rightarrow> nid \<Rightarrow> nid option" where
  "next_in [] n = None"
| "next_in [x] n = None"
| "next_in (x # y # ys) n = (if x = n then Some y else next_in (y # ys) n)"

definition nextSibling :: "dom \<Rightarrow> nid \<Rightarrow> nid option" where
  "nextSibling d n =
     (case parentNode d n of None \<Rightarrow> None | Some p \<Rightarrow> next_in (childNodes d p) n)"

text \<open>\<open>parent.removeChild(child)\<close>: a NotFoundError unless \<open>child\<close>'s parent is \<open>parent\<close>.\<close>

definition removeChild :: "dom \<Rightarrow> nid \<Rightarrow> nid \<Rightarrow> error \<times> dom + dom" where
  "removeChild d parent child =
     (if parentNode d child \<noteq> Some parent then Inl (NotFoundError, d)
      else Inr (d\<lparr>childNodes := (childNodes d)(parent := removeAll child (childNodes d parent)),
                 parentNode := (parentNode d)(child := None)\<rparr>))"

definition detach :: "dom \<Rightarrow> nid \<Rightarrow> dom" where
  "detach d n =
     (case parentNode d n of
        None \<Rightarrow> d
      | Some p \<Rightarrow> d\<lparr>childNodes := (childNodes d)(p := removeAll n (childNodes d p)),
                    parentNode := (parentNode d)(n := None)\<rparr>)"

definition insert_at :: "nid list \<Rightarrow> nid \<Rightarrow> nid option \<Rightarrow> nid list" where
  "insert_at cs n ref =
     (case ref of
        None \<Rightarrow> cs @ [n]
      | Some r \<Rightarrow> takeWhile (\<lambda>x. x \<noteq> r) cs @ n # dropWhile (\<lambda>x. x \<noteq> r) cs)"

text \<open>
  \<open>parent.insertBefore(node, ref)\<close>: \<open>ref\<close> must be a child of \<open>parent\<close> or null
  (append); a node that is in a tree is removed from it first; inserting a node before
  itself leaves it before its next sibling. Of the hierarchy checks only
  \<open>node = parent\<close> is modelled: repeat inserts children of the container.
\<close>

definition insertBefore :: "dom \<Rightarrow> nid \<Rightarrow> nid \<Rightarrow> nid option \<Rightarrow> error \<times> dom + dom" where
  "insertBefore d parent node ref =
     (if node = parent then Inl (HierarchyRequestError, d)
      else if (case ref of None \<Rightarrow> False | Some r \<Rightarrow> parentNode d r \<noteq> Some parent)
      then Inl (NotFoundError, d)
      else
        (let ref' = (if ref = Some node then nextSibling d node else ref);
             d1 = detach d node
         in Inr (d1\<lparr>childNodes := (childNodes d1)(parent := insert_at (childNodes d1 parent) node ref'),
                    parentNode := (parentNode d1)(node := Some parent)\<rparr>)))"

definition createNode :: "dom \<Rightarrow> nkind \<Rightarrow> nid \<times> dom" where
  "createNode d k =
     (nextId d,
      d\<lparr>nodeKind := (nodeKind d)(nextId d := k),
        parentNode := (parentNode d)(nextId d := None),
        childNodes := (childNodes d)(nextId d := []),
        nextId := nextId d + 1\<rparr>)"

text \<open>\<open>createMarker\<close> of \<open>template.ts\<close>: \<open>document.createComment('')\<close>.\<close>

definition createMarker :: "dom \<Rightarrow> nid \<times> dom" where
  "createMarker d = createNode d (Comment [])"

definition isMarker :: "dom \<Rightarrow> nid \<Rightarrow> bool" where
  "isMarker d n = (nodeKind d n = Comment [])"

section \<open>Node ranges (lib/dom.ts)\<close>

text \<open>
  The container is \<open>None\<close> when the caller's \<open>parentNode\<close> was null: calling a method
  on it is a TypeError, as is reading \<open>nextSibling\<close> of a null \<open>start\<close>.
\<close>

partial_function (option) reparentNodes ::
  "dom \<Rightarrow> nid option \<Rightarrow> nid option \<Rightarrow> nid option \<Rightarrow> nid option \<Rightarrow> dom outcome" where
  "reparentNodes d container start end before =
     (if start = end then Some (Inr d)
      else case start of
        None \<Rightarrow> Some (Inl (TypeError, d))
      | Some s \<Rightarrow>
          (let n = nextSibling d s
           in case container of
                None \<Rightarrow> Some (Inl (TypeError, d))
              | Some c \<Rightarrow>
                  (case insertBefore d c s before of
                     Inl e \<Rightarrow> Some (Inl e)
                   | Inr d' \<Rightarrow> reparentNodes d' container n end before)))"

declare reparentNodes.simps [code]

partial_function (option) removeNodes ::
  "dom \<Rightarrow> nid option \<Rightarrow> nid option \<Rightarrow> nid option \<Rightarrow> dom outcome" where
  "removeNodes d container start end =
     (if start = end then Some (Inr d)
      else case start of
        None \<Rightarrow> Some (Inl (TypeError, d))
      | Some s \<Rightarrow>
          (let n = nextSibling d s
           in case container of
                None \<Rightarrow> Some (Inl (TypeError, d))
              | Some c \<Rightarrow>
                  (case removeChild d c s of
                     Inl e \<Rightarrow> Some (Inl e)
                   | Inr d' \<Rightarrow> removeNodes d' container n end)))"

declare removeNodes.simps [code]

section \<open>Parts\<close>

text \<open>
  Modelled from the spec: the part abstraction of \<open>lit-html.js\<close>, which is not under
  src/ ("a set value / commit protocol": stage the new value, then materialize it into
  the DOM between the part's markers). Committing clears the nodes between \<open>startNode\<close>
  and \<open>endNode\<close> with \<open>removeNodes\<close> and inserts the nodes of the value before
  \<open>endNode\<close>: a primitive is one text node, an object the nodes it carries.
\<close>

fun digits :: "nat \<Rightarrow> string" where
  "digits n = (if n < 10 then [''0123456789'' ! n] else digits (n div 10) @ [''0123456789'' ! (n mod 10)])"

definition render :: "any \<Rightarrow> nkind list" where
  "render v =
     (case v of
        Undefined \<Rightarrow> [Text []]
      | Num i \<Rightarrow> [Text (if i < 0 then CHR ''-'' # digits (nat (- i)) else digits (nat i))]
      | Str s \<Rightarrow> [Text s]
      | Obj a ks \<Rightarrow> ks)"

fun insertNodes :: "dom \<Rightarrow> nid option \<Rightarrow> nkind list \<Rightarrow> nid \<Rightarrow> error \<times> dom + dom" where
  "insertNodes d container [] before = Inr d"
| "insertNodes d container (k # ks) before =
     (case container of
        None \<Rightarrow> Inl (TypeError, d)
      | Some c \<Rightarrow>
          (let (n, d1) = createNode d k
           in case insertBefore d1 c n (Some before) of
                Inl e \<Rightarrow> Inl e
              | Inr d2 \<Rightarrow> insertNodes d2 container ks before))"

definition commit :: "dom \<Rightarrow> NodePart \<Rightarrow> any \<Rightarrow> dom outcome" where
  "commit d part v =
     andThen
       (removeNodes d (parentNode d (startNode part)) (nextSibling d (startNode part))
          (Some (endNode part)))
       (\<lambda>d1. Some (insertNodes d1 (parentNode d1 (endNode part)) (render v) (endNode part)))"

text \<open>The binding positions; \<open>containerPart instanceof NodePart\<close> is the first case.\<close>

datatype Part =
    OfNodePart NodePart
  | AttributePart
  | BooleanAttributePart
  | PropertyPart
  | EventPart

text \<open>
  A non-null assertion \<open>x!\<close> checks nothing: reading a property of \<open>undefined\<close> or
  \<open>null\<close> is the TypeError, thrown in the DOM \<open>d\<close> of that moment.
\<close>

definition deref :: "dom \<Rightarrow> 'a slot \<Rightarrow> 'a outcome" where
  "deref d x = (case x of Ref p \<Rightarrow> Some (Inr p) | _ \<Rightarrow> Some (Inl (TypeError, d)))"

section \<open>The helpers of repeat.ts\<close>

definition createAndInsertPart :: "dom \<Rightarrow> NodePart \<Rightarrow> NodePart slot \<Rightarrow> (NodePart \<times> dom) outcome" where
  "createAndInsertPart d containerPart beforePart =
     (let container = parentNode d (startNode containerPart)
      in case (case beforePart of
                 Hole \<Rightarrow> Inr (endNode containerPart)
               | Null \<Rightarrow> Inl TypeError
               | Ref b \<Rightarrow> Inr (startNode b)) of
           Inl e \<Rightarrow> Some (Inl (e, d))
         | Inr beforeNode \<Rightarrow>
             (case container of
                None \<Rightarrow> Some (Inl (TypeError, d))
              | Some c \<Rightarrow>
                  (let (m1, d1) = createMarker d
                   in case insertBefore d1 c m1 (Some beforeNode) of
                        Inl e \<Rightarrow> Some (Inl e)
                      | Inr d2 \<Rightarrow>
                          (let (m2, d3) = createMarker d2
                           in case insertBefore d3 c m2 (Some beforeNode) of
                                Inl e \<Rightarrow> Some (Inl e)
                              | Inr d4 \<Rightarrow>
                                  (case nextSibling d4 m1 of
                                     None \<Rightarrow> Some (Inl (TypeError, d4))
                                   | Some e \<Rightarrow>
                                       (let newPart = \<lparr>startNode = m1, endNode = e\<rparr>
                                        in Some (Inr (newPart, logEvent (Created newPart) d4))))))))"

definition updatePart :: "dom \<Rightarrow> NodePart \<Rightarrow> any \<Rightarrow> dom outcome" where
  "updatePart d part v = andThen (commit d part v) (\<lambda>d1. Some (Inr (logEvent (Updated part v) d1)))"

definition insertPartBefore :: "dom \<Rightarrow> NodePart \<Rightarrow> NodePart \<Rightarrow> NodePart slot \<Rightarrow> dom outcome" where
  "insertPartBefore d containerPart part ref =
     (let container = parentNode d (startNode containerPart);
          beforeNode = (case ref of Ref r \<Rightarrow> Some (startNode r) | _ \<Rightarrow> Some (endNode containerPart));
          endNode' = nextSibling d (endNode part)
      in if endNode' \<noteq> beforeNode
         then reparentNodes (logEvent (Moved part) d) container (Some (startNode part)) endNode' beforeNode
         else Some (Inr d))"

text \<open>\<open>function commitRemoveNode(node: Node, container: Node)\<close>, parameters in that order.\<close>

definition commitRemoveNode :: "dom \<Rightarrow> nid option \<Rightarrow> nid option \<Rightarrow> error \<times> dom + dom" where
  "commitRemoveNode d node container =
     (case container of
        None \<Rightarrow> Inl (Error ''illegal node mutation'', d)
      | Some c \<Rightarrow> (case node of None \<Rightarrow> Inl (TypeError, d) | Some n \<Rightarrow> removeChild d c n))"

record NodeRemovalToken =
  target :: nid
  container :: "nid option"

text \<open>
  A removal handler receives the token and the DOM; it returns whether it called
  \<open>preventDefault()\<close>, and the DOM as it left it (the trace is not the handler's to
  change: the walk keeps its own).
\<close>

type_synonym NodeRemovalHandler = "NodeRemovalToken \<Rightarrow> dom \<Rightarrow> bool \<times> dom"

text \<open>\<open>NodeRemovalToken.commit\<close>: \<open>commitRemoveNode(this.container, this.target)\<close>.\<close>

definition tokenCommit :: "dom \<Rightarrow> NodeRemovalToken \<Rightarrow> error \<times> dom + dom" where
  "tokenCommit d tok = commitRemoveNode d (container tok) (Some (target tok))"

partial_function (option) removalWalk ::
  "dom \<Rightarrow> nid option \<Rightarrow> nid option \<Rightarrow> nid option \<Rightarrow> NodeRemovalHandler \<Rightarrow> dom outcome" where
  "removalWalk d container' node endNode' nodeRemovalHandler =
     (if node = endNode' then Some (Inr d)
      else case node of
        None \<Rightarrow> Some (Inl (Error ''illegal node mutation'', d))
      | Some n \<Rightarrow>
          (let next = nextSibling d n
           in if \<not> isMarker d n
              then
                (let token = \<lparr>target = n, container = container'\<rparr>;
                     r = nodeRemovalHandler token d;
                     d1 = logEvent (Notified n) ((snd r)\<lparr>trace := trace d\<rparr>)
                 in if \<not> fst r
                    then (case tokenCommit d1 token of
                            Inl e \<Rightarrow> Some (Inl e)
                          | Inr d2 \<Rightarrow> removalWalk d2 container' next endNode' nodeRemovalHandler)
                    else removalWalk d1 container' next endNode' nodeRemovalHandler)
              else removalWalk d container' next endNode' nodeRemovalHandler))"

declare removalWalk.simps [code]

definition removeNodesWithRemovalHandler ::
  "dom \<Rightarrow> nid option \<Rightarrow> nid option \<Rightarrow> nid option \<Rightarrow> NodeRemovalHandler option \<Rightarrow> dom outcome" where
  "removeNodesWithRemovalHandler d container' startNode' endNode' nodeRemovalHandler =
     (case nodeRemovalHandler of
        None \<Rightarrow> removeNodes d container' startNode' endNode'
      | Some h \<Rightarrow> removalWalk d container' startNode' endNode' h)"

definition removePart :: "dom \<Rightarrow> NodePart \<Rightarrow> NodeRemovalHandler option \<Rightarrow> dom outcome" where
  "removePart d part nodeRemovalHandler =
     removeNodesWithRemovalHandler (logEvent (Removed part) d)
       (parentNode d (startNode part)) (Some (startNode part)) (nextSibling d (endNode part))
       nodeRemovalHandler"

definition generateMap :: "any list \<Rightarrow> int \<Rightarrow> int \<Rightarrow> (any \<rightharpoonup> int)" where
  "generateMap list start end = fold (\<lambda>i m. m(elt list i \<mapsto> i)) [start..end] Map.empty"

section \<open>The repeat directive\<close>

text \<open>The local variables of one call that the loops change, with the DOM.\<close>

record pass =
  doc :: dom
  oldParts :: "NodePart slot list"
  newParts :: "NodePart slot list"
  newKeyToIndexMap :: "(any \<rightharpoonup> int) option"
  oldKeyToIndexMap :: "(any \<rightharpoonup> int) option"
  oldHead :: int
  oldTail :: int
  newHead :: int
  newTail :: int

text \<open>\<open>if (newKeyToIndexMap === undefined)\<close>: the two maps are generated once, lazily.\<close>

definition ensureMaps :: "any list \<Rightarrow> any list \<Rightarrow> pass \<Rightarrow> pass" where
  "ensureMaps oldKeys newKeys s =
     (if newKeyToIndexMap s = None
      then s\<lparr>doc := logEvent MapsGenerated (doc s),
             newKeyToIndexMap := Some (generateMap newKeys (newHead s) (newTail s)),
             oldKeyToIndexMap := Some (generateMap oldKeys (oldHead s) (oldTail s))\<rparr>
      else s)"

text \<open>One iteration of the main loop: the body of
  \<open>while (oldHead <= oldTail && newHead <= newTail)\<close>.\<close>

definition reconcileStep ::
  "NodePart \<Rightarrow> any list \<Rightarrow> any list \<Rightarrow> any list \<Rightarrow> NodeRemovalHandler option \<Rightarrow> pass
     \<Rightarrow> pass outcome" where
  "reconcileStep containerPart oldKeys newKeys newValues onRemove s =
       (if at (oldParts s) (oldHead s) = Null then
          Some (Inr (s\<lparr>oldHead := oldHead s + 1\<rparr>))
        else if at (oldParts s) (oldTail s) = Null then
          Some (Inr (s\<lparr>oldTail := oldTail s - 1\<rparr>))
        else if elt oldKeys (oldHead s) = elt newKeys (newHead s) then
          andThen (deref (doc s) (at (oldParts s) (oldHead s))) (\<lambda>part.
          andThen (updatePart (doc s) part (elt newValues (newHead s))) (\<lambda>d.
            Some (Inr (s\<lparr>doc := d, newParts := put (newParts s) (newHead s) (Ref part),
                 oldHead := oldHead s + 1, newHead := newHead s + 1\<rparr>))))
        else if elt oldKeys (oldTail s) = elt newKeys (newTail s) then
          andThen (deref (doc s) (at (oldParts s) (oldTail s))) (\<lambda>part.
          andThen (updatePart (doc s) part (elt newValues (newTail s))) (\<lambda>d.
            Some (Inr (s\<lparr>doc := d, newParts := put (newParts s) (newTail s) (Ref part),
                 oldTail := oldTail s - 1, newTail := newTail s - 1\<rparr>))))
        else if elt oldKeys (oldHead s) = elt newKeys (newTail s) then
          andThen (deref (doc s) (at (oldParts s) (oldHead s))) (\<lambda>part.
          andThen (updatePart (doc s) part (elt newValues (newTail s))) (\<lambda>d.
            (let newParts' = put (newParts s) (newTail s) (Ref part)
             in andThen (insertPartBefore d containerPart part (at newParts' (newTail s + 1))) (\<lambda>d'.
                  Some (Inr (s\<lparr>doc := d', newParts := newParts',
                       oldHead := oldHead s + 1, newTail := newTail s - 1\<rparr>))))))
        else if elt oldKeys (oldTail s) = elt newKeys (newHead s) then
          andThen (deref (doc s) (at (oldParts s) (oldTail s))) (\<lambda>part.
          andThen (updatePart (doc s) part (elt newValues (newHead s))) (\<lambda>d.
          andThen (insertPartBefore d containerPart part (at (oldParts s) (oldHead s))) (\<lambda>d'.
            Some (Inr (s\<lparr>doc := d', newParts := put (newParts s) (newHead s) (Ref part),
                 oldTail := oldTail s - 1, newHead := newHead s + 1\<rparr>)))))
        else
          (let s1 = ensureMaps oldKeys newKeys s
           in case newKeyToIndexMap s1 of
                None \<Rightarrow> Some (Inl (TypeError, doc s1))
              | Some newMap \<Rightarrow>
                  if newMap (elt oldKeys (oldHead s)) = None then
                    andThen (deref (doc s1) (at (oldParts s) (oldHead s))) (\<lambda>part.
                    andThen (removePart (doc s1) part onRemove) (\<lambda>d.
                      Some (Inr (s1\<lparr>doc := d, oldHead := oldHead s + 1\<rparr>))))
                  else if newMap (elt oldKeys (oldTail s)) = None then
                    andThen (deref (doc s1) (at (oldParts s) (oldTail s))) (\<lambda>part.
                    andThen (removePart (doc s1) part onRemove) (\<lambda>d.
                      Some (Inr (s1\<lparr>doc := d, oldTail := oldTail s - 1\<rparr>))))
                  else
                    (case oldKeyToIndexMap s1 of
                       None \<Rightarrow> Some (Inl (TypeError, doc s1))
                     | Some oldMap \<Rightarrow>
                         (let oldIndex = oldMap (elt newKeys (newHead s));
                              oldPart = (case oldIndex of None \<Rightarrow> Null | Some i \<Rightarrow> at (oldParts s) i)
                          in if oldPart = Null then
                               andThen (createAndInsertPart (doc s1) containerPart (at (oldParts s) (oldHead s)))
                                 (\<lambda>(newPart, d).
                               andThen (updatePart d newPart (elt newValues (newHead s))) (\<lambda>d'.
                                 Some (Inr (s1\<lparr>doc := d', newParts := put (newParts s) (newHead s) (Ref newPart),
                                       newHead := newHead s + 1\<rparr>))))
                             else
                               andThen (deref (doc s1) oldPart) (\<lambda>part.
                               andThen (updatePart (doc s1) part (elt newValues (newHead s))) (\<lambda>d.
                               andThen (insertPartBefore d containerPart part (at (oldParts s) (oldHead s))) (\<lambda>d'.
                                 Some (Inr (s1\<lparr>doc := d', newParts := put (newParts s) (newHead s) (Ref part),
                                       oldParts := (case oldIndex of None \<Rightarrow> oldParts s | Some i \<Rightarrow> put (oldParts s) i Null),
                                       newHead := newHead s + 1\<rparr>)))))))))"

lemma andThen_cong [fundef_cong]:
  "m = m' \<Longrightarrow> (\<And>x. m' = Some (Inr x) \<Longrightarrow> f x = f' x) \<Longrightarrow> andThen m f = andThen m' f'"
  by (auto simp: andThen_def split: option.splits sum.splits)

lemma andThen_returns:
  "andThen m f = Some (Inr y) \<longleftrightarrow> (\<exists>x. m = Some (Inr x) \<and> f x = Some (Inr y))"
  by (auto simp: andThen_def split: option.splits sum.splits)

lemma reconcileStep_pointers:
  assumes "reconcileStep containerPart oldKeys newKeys newValues onRemove s = Some (Inr s')"
  shows "(oldHead s' = oldHead s + 1 \<or> oldHead s' = oldHead s)
       \<and> (oldTail s' = oldTail s - 1 \<or> oldTail s' = oldTail s)
       \<and> (newHead s' = newHead s + 1 \<or> newHead s' = newHead s)
       \<and> (newTail s' = newTail s - 1 \<or> newTail s' = newTail s)
       \<and> (oldHead s' \<noteq> oldHead s \<or> oldTail s' \<noteq> oldTail s
            \<or> newHead s' \<noteq> newHead s \<or> newTail s' \<noteq> newTail s)"
  using assms unfolding reconcileStep_def ensureMaps_def Let_def
  by (auto simp: andThen_returns split: if_splits option.splits prod.splits)

text \<open>The main loop.\<close>

function reconcile ::
  "NodePart \<Rightarrow> any list \<Rightarrow> any list \<Rightarrow> any list \<Rightarrow> NodeRemovalHandler option \<Rightarrow> pass
     \<Rightarrow> pass outcome" where
  "reconcile containerPart oldKeys newKeys newValues onRemove s =
     (if oldHead s \<le> oldTail s \<and> newHead s \<le> newTail s then
        andThen (reconcileStep containerPart oldKeys newKeys newValues onRemove s)
          (reconcile containerPart oldKeys newKeys newValues onRemove)
      else Some (Inr s))"
  by pat_completeness auto
termination
proof (relation "measure (\<lambda>(containerPart, oldKeys, newKeys, newValues, onRemove, s).
        nat (oldTail s - oldHead s + 1) + nat (newTail s - newHead s + 1))", goal_cases)
  case 1
  show ?case by simp
next
  case (2 containerPart oldKeys newKeys newValues onRemove s s')
  from reconcileStep_pointers [OF 2(2)] 2(1) show ?case by auto
qed

declare reconcile.simps [simp del]

text \<open>\<open>while (newHead <= newTail)\<close>: parts for the remaining new values.\<close>

function addRemaining :: "NodePart \<Rightarrow> any list \<Rightarrow> pass \<Rightarrow> pass outcome" where
  "addRemaining containerPart newValues s =
     (if newHead s \<le> newTail s then
        andThen (createAndInsertPart (doc s) containerPart (at (newParts s) (newTail s + 1)))
          (\<lambda>(newPart, d).
        andThen (updatePart d newPart (elt newValues (newHead s))) (\<lambda>d'.
          addRemaining containerPart newValues
            (s\<lparr>doc := d', newParts := put (newParts s) (newHead s) (Ref newPart),
               newHead := newHead s + 1\<rparr>)))
      else Some (Inr s))"
  by pat_completeness auto
termination
  by (relation "measure (\<lambda>(containerPart, newValues, s). nat (newTail s - newHead s + 1))") auto

declare addRemaining.simps [simp del]

text \<open>\<open>while (oldHead <= oldTail)\<close>: the remaining old parts are removed.\<close>

function removeRemaining :: "NodeRemovalHandler option \<Rightarrow> pass \<Rightarrow> pass outcome" where
  "removeRemaining onRemove s =
     (if oldHead s \<le> oldTail s then
        (let oldPart = at (oldParts s) (oldHead s);
             s1 = s\<lparr>oldHead := oldHead s + 1\<rparr>
         in if oldPart \<noteq> Null then
              andThen (deref (doc s) oldPart) (\<lambda>part.
              andThen (removePart (doc s) part onRemove) (\<lambda>d.
                removeRemaining onRemove (s1\<lparr>doc := d\<rparr>)))
            else removeRemaining onRemove s1)
      else Some (Inr s))"
  by pat_completeness auto
termination
  by (relation "measure (\<lambda>(onRemove, s). nat (oldTail s - oldHead s + 1))") auto

declare removeRemaining.simps [simp del]

text \<open>
  The state that outlives a call: the DOM and the two \<open>WeakMap\<close>s keyed by the
  container part.
\<close>

record world =
  document :: dom
  partListCache :: "NodePart \<rightharpoonup> NodePart slot list"
  keyListCache :: "NodePart \<rightharpoonup> any list"

text \<open>
  The \<open>for (const item of items)\<close> loop: \<open>keyFn ? keyFn(item, index) : index\<close> and
  \<open>template!(item, index)\<close>, a TypeError when there is no template to call.
\<close>

fun keysAndValues ::
  "('a \<Rightarrow> nat \<Rightarrow> any) option \<Rightarrow> ('a \<Rightarrow> nat \<Rightarrow> any) option \<Rightarrow> 'a list \<Rightarrow> nat
     \<Rightarrow> error + (any list \<times> any list)" where
  "keysAndValues keyFn template [] index = Inr ([], [])"
| "keysAndValues keyFn template (item # items) index =
     (let key = (case keyFn of None \<Rightarrow> Num (int index) | Some f \<Rightarrow> f item index)
      in case template of
           None \<Rightarrow> Inl TypeError
         | Some t \<Rightarrow>
             (case keysAndValues keyFn template items (index + 1) of
                Inl e \<Rightarrow> Inl e
              | Inr (newKeys, newValues) \<Rightarrow> Inr (key # newKeys, t item index # newValues)))"

text \<open>
  The arguments: \<open>if (template === undefined) template = keyFnOrTemplate; else if
  (keyFnOrTemplate !== undefined) keyFn = keyFnOrTemplate\<close>. With no third argument the
  second one is the template and there is no key function.
\<close>

definition keyFnOf ::
  "('a \<Rightarrow> nat \<Rightarrow> any) option \<Rightarrow> ('a \<Rightarrow> nat \<Rightarrow> any) option \<Rightarrow> ('a \<Rightarrow> nat \<Rightarrow> any) option" where
  "keyFnOf keyFnOrTemplate template = (case template of None \<Rightarrow> None | Some t \<Rightarrow> keyFnOrTemplate)"

definition templateOf ::
  "('a \<Rightarrow> nat \<Rightarrow> any) option \<Rightarrow> ('a \<Rightarrow> nat \<Rightarrow> any) option \<Rightarrow> ('a \<Rightarrow> nat \<Rightarrow> any) option" where
  "templateOf keyFnOrTemplate template = (case template of None \<Rightarrow> keyFnOrTemplate | Some t \<Rightarrow> Some t)"

text \<open>\<open>partListCache.get(containerPart) || []\<close> and \<open>keyListCache.get(containerPart) || []\<close>.\<close>

definition cachedParts :: "world \<Rightarrow> NodePart \<Rightarrow> NodePart slot list" where
  "cachedParts w cp = (case partListCache w cp of None \<Rightarrow> [] | Some ps \<Rightarrow> ps)"

definition cachedKeys :: "world \<Rightarrow> NodePart \<Rightarrow> any list" where
  "cachedKeys w cp = (case keyListCache w cp of None \<Rightarrow> [] | Some ks \<Rightarrow> ks)"

text \<open>The locals as the main loop finds them: \<open>newParts = []\<close>, no maps, the four pointers.\<close>

definition startOfPass :: "dom \<Rightarrow> NodePart slot list \<Rightarrow> any list \<Rightarrow> pass" where
  "startOfPass d oldParts0 newValues =
     \<lparr>doc = d, oldParts = oldParts0, newParts = [],
      newKeyToIndexMap = None, oldKeyToIndexMap = None,
      oldHead = 0, oldTail = int (length oldParts0) - 1,
      newHead = 0, newTail = int (length newValues) - 1\<rparr>"

text \<open>
  \<open>repeat(items, keyFnOrTemplate, template, onRemove)(containerPart)\<close>. The two caches
  are set last, so an exception of the loops leaves them as they were, with the DOM of the
  \<open>throw\<close>; the \<open>instanceof\<close> check is the first statement.
\<close>

definition repeat ::
  "'a list \<Rightarrow> ('a \<Rightarrow> nat \<Rightarrow> any) option \<Rightarrow> ('a \<Rightarrow> nat \<Rightarrow> any) option
     \<Rightarrow> NodeRemovalHandler option \<Rightarrow> Part \<Rightarrow> world \<Rightarrow> (world, world) result" where
  "repeat items keyFnOrTemplate template onRemove containerPart w =
     (let keyFn = keyFnOf keyFnOrTemplate template;
          template' = templateOf keyFnOrTemplate template
      in case containerPart of
           OfNodePart cp \<Rightarrow>
             (let oldParts0 = cachedParts w cp;
                  oldKeys = cachedKeys w cp
              in case keysAndValues keyFn template' items 0 of
                   Inl e \<Rightarrow> Some (Inl (e, w))
                 | Inr (newKeys, newValues) \<Rightarrow>
                     (case andThen
                             (reconcile cp oldKeys newKeys newValues onRemove
                                (startOfPass (document w) oldParts0 newValues))
                             (\<lambda>s1. andThen (addRemaining cp newValues s1)
                             (\<lambda>s2. removeRemaining onRemove s2)) of
                        None \<Rightarrow> None
                      | Some (Inl (e, d)) \<Rightarrow> Some (Inl (e, w\<lparr>document := d\<rparr>))
                      | Some (Inr s3) \<Rightarrow>
                          Some (Inr (w\<lparr>document := doc s3,
                                      partListCache := (partListCache w)(cp \<mapsto> newParts s3),
                                      keyListCache := (keyListCache w)(cp \<mapsto> newKeys)\<rparr>))))
         | _ \<Rightarrow> Some (Inl (Error ''repeat can only be used in text bindings'', w)))"

section \<open>Example inputs\<close>

text \<open>
  A \<open>div\<close> (node 0) holding the two markers of a container part, and the same \<open>div\<close>
  holding a text node between two markers.
\<close>

definition emptyList :: dom where
  "emptyList =
     \<lparr>nodeKind = (\<lambda>n. if n = 0 then Element ''div'' else Comment []),
      parentNode = (\<lambda>n. if n = 1 \<or> n = 2 then Some 0 else None),
      childNodes = (\<lambda>n. if n = 0 then [1, 2] else []),
      nextId = 3, trace = []\<rparr>"

definition listPart :: NodePart where
  "listPart = \<lparr>startNode = 1, endNode = 2\<rparr>"

definition firstRender :: world where
  "firstRender = \<lparr>document = emptyList, partListCache = Map.empty, keyListCache = Map.empty\<rparr>"

definition oneText :: dom where
  "oneText =
     \<lparr>nodeKind = (\<lambda>n. if n = 0 then Element ''div'' else if n = 2 then Text ''a'' else Comment []),
      parentNode = (\<lambda>n. if n = 1 \<or> n = 2 \<or> n = 3 then Some 0 else None),
      childNodes = (\<lambda>n. if n = 0 then [1, 2, 3] else []),
      nextId = 4, trace = []\<rparr>"

text \<open>Handlers that leave the DOM alone: one lets the removal proceed, one prevents it.\<close>

definition proceed :: NodeRemovalHandler where
  "proceed token d = (False, d)"

definition prevent :: NodeRemovalHandler where
  "prevent token d = (True, d)"

text \<open>\<open>repeat(items, (x) => x, (x) => x, onRemove)\<close> on the list part: numbers keyed by themselves.\<close>

definition keyedRender ::
  "int list \<Rightarrow> NodeRemovalHandler option \<Rightarrow> world \<Rightarrow> (world, world) result" where
  "keyedRender items onRemove w =
     repeat items (Some (\<lambda>x i. Num x)) (Some (\<lambda>x i. Num x)) onRemove (OfNodePart listPart) w"


text \<open>What a test looks at: the children of the \<open>div\<close>, the trace, and the two caches.\<close>

definition observe ::
  "(world, world) result
     \<Rightarrow> (error + nid list \<times> event list \<times> NodePart slot list option \<times> any list option) option" where
  "observe r =
     map_option (map_sum fst (\<lambda>w. (childNodes (document w) 0, trace (document w),
        partListCache w listPart, keyListCache w listPart))) r"

text \<open>The exception a call ends with, if it ends with one.\<close>

definition thrown :: "('s, 'a) result \<Rightarrow> error option" where
  "thrown r = (case r of Some (Inl (e, s)) \<Rightarrow> Some e | _ \<Rightarrow> None)"

section \<open>Well-formed containers and the order of ranges\<close>

text \<open>The first element of a list, or null: what \<open>nextSibling\<close> returns after a child.\<close>

definition first :: "'a list \<Rightarrow> 'a option" where
  "first xs = (case xs of [] \<Rightarrow> None | x # ys \<Rightarrow> Some x)"

text \<open>
  A container of a well-formed tree: no child occurs twice, every child has the container
  as its parent and was allocated, and the container is not its own child.
\<close>

definition tidy :: "dom \<Rightarrow> nid \<Rightarrow> bool" where
  "tidy d c =
     (distinct (childNodes d c) \<and> c \<notin> set (childNodes d c) \<and> c < nextId d
      \<and> (\<forall>n\<in>set (childNodes d c). parentNode d n = Some c \<and> n < nextId d))"


text \<open>A handler that leaves the DOM as it found it.\<close>

definition quiet :: "NodeRemovalHandler \<Rightarrow> bool" where
  "quiet h = (\<forall>t d. snd (h t d) = d)"


text \<open>
  The order of the ranges: the markers of the parts, in the order of the part list and
  between the markers of the container part, are what is left of the children of the
  container when every other node is dropped. So the range of each part (from its start
  marker to its end marker) lies in the container part, before the range of the next
  part, and holds no marker of another part.
\<close>

definition markers :: "NodePart list \<Rightarrow> nid list" where
  "markers ps = concat (map (\<lambda>p. [startNode p, endNode p]) ps)"

definition framed :: "NodePart \<Rightarrow> NodePart list \<Rightarrow> nid list" where
  "framed cp ps = startNode cp # markers ps @ [endNode cp]"

definition inOrder :: "dom \<Rightarrow> nid \<Rightarrow> NodePart \<Rightarrow> NodePart list \<Rightarrow> bool" where
  "inOrder d c cp ps =
     (filter (\<lambda>n. n \<in> set (framed cp ps)) (childNodes d c) = framed cp ps)"

text \<open>The events a call appended to the trace, and the parts among them.\<close>

definition since :: "dom \<Rightarrow> dom \<Rightarrow> event list" where
  "since d d' = drop (length (trace d)) (trace d')"

fun isCreated :: "event \<Rightarrow> bool" where
  "isCreated (Created p) = True"
| "isCreated e = False"

text \<open>Whether a call returned normally.\<close>

definition returned :: "('s, 'a) result \<Rightarrow> bool" where
  "returned r = (case r of Some (Inr x) \<Rightarrow> True | _ \<Rightarrow> False)"

text \<open>Two calls in a row: the events of the second, the part list and the children it leaves.\<close>

definition secondPass ::
  "(world \<Rightarrow> (world, world) result) \<Rightarrow> (world \<Rightarrow> (world, world) result) \<Rightarrow> world
     \<Rightarrow> (event list \<times> NodePart slot list option \<times> nid list) option" where
  "secondPass render1 render2 w =
     (case render1 w of
        Some (Inr w1) \<Rightarrow>
          (case render2 w1 of
             Some (Inr w2) \<Rightarrow>
               Some (since (document w1) (document w2), partListCache w2 listPart,
                     childNodes (document w2) 0)
           | _ \<Rightarrow> None)
      | _ \<Rightarrow> None)"

definition isNodePart :: "Part \<Rightarrow> bool" where
  "isNodePart p = (case p of OfNodePart cp \<Rightarrow> True | _ \<Rightarrow> False)"

fun mentions :: "string \<Rightarrow> string \<Rightarrow> bool" where
  "mentions [] phrase = (phrase = [])"
| "mentions (c # cs) phrase = (take (length phrase) (c # cs) = phrase \<or> mentions cs phrase)"

definition lookupByIdentity :: "caches \<Rightarrow> string \<Rightarrow> nat \<Rightarrow> Template option" where
  "lookupByIdentity c ty a = (case templateCaches c ty of None \<Rightarrow> None | Some m \<Rightarrow> m a)"

definition tiers_agree :: "string \<Rightarrow> (nat \<Rightarrow> string list) \<Rightarrow> caches \<Rightarrow> bool" where
  "tiers_agree marker H c =
     (\<forall>ty a t. lookupByIdentity c ty a = Some t \<longrightarrow> keyedTemplates c (join (H a) marker) = Some t)"

definition literalA :: TemplateResult where "literalA = \<lparr>type = ''html'', strings = 1\<rparr>"
definition literalB :: TemplateResult where "literalB = \<lparr>type = ''html'', strings = 2\<rparr>"
definition sameContent :: "nat \<Rightarrow> string list" where "sameContent a = [''<p>'', ''</p>'']"

section \<open>The states of a pass\<close>

text \<open>
  What a call appends to the trace: \<open>extends\<close> when it creates no part. A state of the
  main loop is \<open>stuck\<close> when none of the four comparisons of heads and tails applies.
\<close>

definition extends :: "dom \<Rightarrow> dom \<Rightarrow> bool" where
  "extends d d' = (\<exists>es. trace d' = trace d @ es \<and> list_all (\<lambda>e. \<not> isCreated e) es)"

definition grows :: "dom \<Rightarrow> dom \<Rightarrow> bool" where
  "grows d d' = (\<exists>es. trace d' = trace d @ es)"

definition stuck :: "any list \<Rightarrow> any list \<Rightarrow> pass \<Rightarrow> bool" where
  "stuck oldKeys newKeys s =
     (at (oldParts s) (oldHead s) \<noteq> Null \<and> at (oldParts s) (oldTail s) \<noteq> Null
      \<and> elt oldKeys (oldHead s) \<noteq> elt newKeys (newHead s)
      \<and> elt oldKeys (oldTail s) \<noteq> elt newKeys (newTail s)
      \<and> elt oldKeys (oldHead s) \<noteq> elt newKeys (newTail s)
      \<and> elt oldKeys (oldTail s) \<noteq> elt newKeys (newHead s))"

text \<open>
  The slots of \<open>newParts\<close> outside the window \<open>newHead..newTail\<close> hold parts, each from
  the old part list or created since the call began.
\<close>

definition filled :: "int \<Rightarrow> NodePart slot list \<Rightarrow> dom \<Rightarrow> pass \<Rightarrow> bool" where
  "filled n ops0 d0 s =
     (0 \<le> newHead s \<and> newHead s \<le> newTail s + 1 \<and> newTail s < n
      \<and> int (length (newParts s)) \<le> n \<and> grows d0 (doc s)
      \<and> (\<forall>p. Ref p \<in> set (oldParts s) \<longrightarrow> Ref p \<in> set ops0)
      \<and> (\<forall>i. (0 \<le> i \<and> i < newHead s) \<or> (newTail s < i \<and> i < n) \<longrightarrow>
            (\<exists>p. at (newParts s) i = Ref p
                 \<and> (Ref p \<in> set ops0 \<or> Created p \<in> set (since d0 (doc s))))))"

text \<open>
  The parts a pass has in the DOM: those already placed at the head of \<open>newParts\<close>, the
  old parts still in the window \<open>oldHead..oldTail\<close> (a slot set to null holds none), and
  those already placed at the tail of \<open>newParts\<close>.
\<close>

fun partOf :: "'a slot \<Rightarrow> 'a list" where
  "partOf (Ref p) = [p]"
| "partOf x = []"

definition parts_in :: "'a slot list \<Rightarrow> int \<Rightarrow> int \<Rightarrow> 'a list" where
  "parts_in xs i j = concat (map (\<lambda>k. partOf (at xs k)) [i..j])"







section \<open>The template cache\<close>

lemma tiers_agree_noCaches: "tiers_agree marker H noCaches"
  by (simp add: tiers_agree_def lookupByIdentity_def noCaches_def)

lemma templateFactory_hit:
  "lookupByIdentity c (type r) (strings r) = Some t \<Longrightarrow> templateFactory marker H r c = (t, c)"
  by (auto simp: lookupByIdentity_def templateFactory_def split: option.splits)

lemma templateFactory_keyed_mono:
  "keyedTemplates c k = Some t \<Longrightarrow> keyedTemplates (snd (templateFactory marker H r c)) k = Some t"
  by (auto simp: templateFactory_def Let_def split: option.splits)

lemma templateFactory_identity_mono:
  "lookupByIdentity c ty a = Some t \<Longrightarrow>
   lookupByIdentity (snd (templateFactory marker H r c)) ty a = Some t"
  by (auto simp: templateFactory_def lookupByIdentity_def Let_def split: option.splits)

lemma templateFactory_populates_identity:
  "lookupByIdentity (snd (templateFactory marker H r c)) (type r) (strings r)
     = Some (fst (templateFactory marker H r c))"
  by (auto simp: templateFactory_def lookupByIdentity_def Let_def split: option.splits)

lemma templateFactory_populates_keyed:
  "tiers_agree marker H c \<Longrightarrow>
   keyedTemplates (snd (templateFactory marker H r c)) (join (H (strings r)) marker)
     = Some (fst (templateFactory marker H r c))"
  by (auto simp: templateFactory_def lookupByIdentity_def tiers_agree_def Let_def split: option.splits)

lemma templateFactory_identity_frame:
  "ty \<noteq> type r \<or> a \<noteq> strings r \<Longrightarrow>
   lookupByIdentity (snd (templateFactory marker H r c)) ty a = lookupByIdentity c ty a"
  by (auto simp: templateFactory_def lookupByIdentity_def Let_def split: option.splits)

lemma templateFactory_tiers_agree:
  assumes inv: "tiers_agree marker H c"
  shows "tiers_agree marker H (snd (templateFactory marker H r c))"
  unfolding tiers_agree_def
proof (intro allI impI)
  fix ty a t
  assume look: "lookupByIdentity (snd (templateFactory marker H r c)) ty a = Some t"
  show "keyedTemplates (snd (templateFactory marker H r c)) (join (H a) marker) = Some t"
  proof (cases "ty = type r \<and> a = strings r")
    case True
    with look have "t = fst (templateFactory marker H r c)"
      by (simp add: templateFactory_populates_identity)
    with True show ?thesis
      by (simp add: templateFactory_populates_keyed [OF inv])
  next
    case False
    then have "lookupByIdentity c ty a = Some t"
      using look templateFactory_identity_frame [of ty r a marker H c] by auto
    then have "keyedTemplates c (join (H a) marker) = Some t"
      using inv by (simp add: tiers_agree_def)
    then show ?thesis by (rule templateFactory_keyed_mono)
  qed
qed

lemma renders_tiers_agree:
  "tiers_agree marker H c \<Longrightarrow> tiers_agree marker H (renders marker H rs c)"
  by (induction rs arbitrary: c) (auto simp: templateFactory_tiers_agree)

lemma renders_keyed_mono:
  "keyedTemplates c k = Some t \<Longrightarrow> keyedTemplates (renders marker H rs c) k = Some t"
  by (induction rs arbitrary: c) (auto simp: templateFactory_keyed_mono)

lemma renders_identity_mono:
  "lookupByIdentity c ty a = Some t \<Longrightarrow> lookupByIdentity (renders marker H rs c) ty a = Some t"
  by (induction rs arbitrary: c) (auto simp: templateFactory_identity_mono)

lemma templateFactory_returns_keyed:
  assumes "tiers_agree marker H c" "keyedTemplates c (join (H (strings r)) marker) = Some t"
  shows "fst (templateFactory marker H r c) = t"
  using assms
  by (auto simp: templateFactory_def lookupByIdentity_def tiers_agree_def Let_def split: option.splits)

text \<open>
  C5. Two template results of the same type whose strings, joined with the marker, are
  equal get the identical \<open>Template\<close> from \<open>templateFactory\<close>, whether or not their
  strings arrays are the same object, and however many other calls come between. The
  first call leaves the template in both maps (by identity and by content), and every
  later call with that strings array is answered by identity: it returns the same
  template and changes nothing.
\<close>

theorem templateFactory_two_tier:
  assumes ty: "type r1 = type r2"
    and key: "join (H (strings r1)) marker = join (H (strings r2)) marker"
    and call1: "templateFactory marker H r1 (renders marker H rs0 noCaches) = (t1, c1)"
    and call2: "templateFactory marker H r2 (renders marker H rs c1) = (t2, c2)"
  shows "t2 = t1
       \<and> lookupByIdentity c1 (type r1) (strings r1) = Some t1
       \<and> keyedTemplates c1 (join (H (strings r1)) marker) = Some t1
       \<and> lookupByIdentity c2 (type r2) (strings r2) = Some t1
       \<and> templateFactory marker H r1 (renders marker H rs' c1) = (t1, renders marker H rs' c1)"
proof -
  let ?c0 = "renders marker H rs0 noCaches"
  have inv0: "tiers_agree marker H ?c0"
    by (simp add: renders_tiers_agree tiers_agree_noCaches)
  have c1: "c1 = snd (templateFactory marker H r1 ?c0)" and t1: "t1 = fst (templateFactory marker H r1 ?c0)"
    using call1 by simp_all
  have inv1: "tiers_agree marker H c1"
    unfolding c1 by (rule templateFactory_tiers_agree [OF inv0])
  have id1: "lookupByIdentity c1 (type r1) (strings r1) = Some t1"
    unfolding c1 t1 by (rule templateFactory_populates_identity)
  have k1: "keyedTemplates c1 (join (H (strings r1)) marker) = Some t1"
    unfolding c1 t1 by (rule templateFactory_populates_keyed [OF inv0])
  let ?c' = "renders marker H rs c1"
  have inv': "tiers_agree marker H ?c'"
    by (rule renders_tiers_agree [OF inv1])
  have k': "keyedTemplates ?c' (join (H (strings r2)) marker) = Some t1"
    using renders_keyed_mono [OF k1] key by simp
  have eq: "t2 = t1"
    using templateFactory_returns_keyed [OF inv' k'] call2 by simp
  have id2: "lookupByIdentity c2 (type r2) (strings r2) = Some t1"
    using templateFactory_populates_identity [of marker H r2 ?c'] call2 eq by simp
  have later: "templateFactory marker H r1 (renders marker H rs' c1) = (t1, renders marker H rs' c1)"
    by (rule templateFactory_hit [OF renders_identity_mono [OF id1]])
  show ?thesis using eq id1 k1 id2 later by simp
qed

theorem templateFactory_two_tier_witness:
  "type literalA = type literalB
   \<and> join (sameContent (strings literalA)) ''{{m}}'' = join (sameContent (strings literalB)) ''{{m}}''
   \<and> strings literalA \<noteq> strings literalB
   \<and> fst (templateFactory ''{{m}}'' sameContent literalB (snd (templateFactory ''{{m}}'' sameContent literalA noCaches)))
       = fst (templateFactory ''{{m}}'' sameContent literalA noCaches)"
proof -
  obtain t1 c1 where a: "templateFactory ''{{m}}'' sameContent literalA (renders ''{{m}}'' sameContent [] noCaches) = (t1, c1)"
    by (cases "templateFactory ''{{m}}'' sameContent literalA (renders ''{{m}}'' sameContent [] noCaches)") 
  obtain t2 c2 where b: "templateFactory ''{{m}}'' sameContent literalB (renders ''{{m}}'' sameContent [] c1) = (t2, c2)"
    by (cases "templateFactory ''{{m}}'' sameContent literalB (renders ''{{m}}'' sameContent [] c1)")
  have ty: "type literalA = type literalB" by (simp add: literalA_def literalB_def)
  have k: "join (sameContent (strings literalA)) ''{{m}}'' = join (sameContent (strings literalB)) ''{{m}}''" by (simp add: sameContent_def)
  have ne: "strings literalA \<noteq> strings literalB" by (simp add: literalA_def literalB_def)
  from templateFactory_two_tier [OF ty k a b, of "[]"] have "t2 = t1" by simp
  with a b ty k ne show ?thesis by simp
qed

section \<open>Arrays and the trace\<close>

lemma at_put: 
  assumes "0 \<le> j"
  shows "at (put xs j v) i = (if i = j then v else at xs i)"
proof (cases "j < int (length xs)")
  case True
  with assms show ?thesis
    by (cases "0 \<le> i \<and> i < int (length xs)") (auto simp: at_def put_def nth_list_update nat_eq_iff)
next
  case False
  let ?ys = "xs @ replicate (nat j - length xs) Hole @ [v]"
  have len: "int (length ?ys) = j + 1" using False assms by simp
  have p: "put xs j v = ?ys" using False assms by (simp add: put_def)
  show ?thesis
  proof (cases "0 \<le> i \<and> i \<le> j")
    case out: False
    then show ?thesis using len False unfolding p at_def by auto
  next
    case inr: True
    show ?thesis
    proof (cases "i = j")
      case True
      have nj: "nat j = length xs + (nat j - length xs)" using False assms by linarith
      have "?ys ! (length xs + (nat j - length xs)) = v"
        by (simp add: nth_append)
      with nj have "?ys ! nat j = v" by simp
      then show ?thesis using True len assms unfolding p at_def by simp
    next
      case ne: False
      have lt: "nat i < nat j" using inr ne by linarith
      have "?ys ! nat i = (if nat i < length xs then xs ! nat i else Hole)"
      proof (cases "nat i < length xs")
        case True then show ?thesis by (simp add: nth_append)
      next
        case ge: False
        then have "nat i - length xs < nat j - length xs" using lt by linarith
        then show ?thesis using ge by (simp add: nth_append)
      qed
      then show ?thesis using ne inr len unfolding p at_def by auto
    qed
  qed
qed

lemma length_put: "0 \<le> j \<Longrightarrow> length (put xs j v) = max (length xs) (nat j + 1)"
  by (auto simp: put_def)

lemma removeChild_trace: "removeChild d c n = Inr d' \<Longrightarrow> trace d' = trace d"
  by (auto simp: removeChild_def split: if_splits)

lemma insertBefore_trace: "insertBefore d c n r = Inr d' \<Longrightarrow> trace d' = trace d"
  by (auto simp: insertBefore_def detach_def Let_def split: if_splits option.splits)

lemma removeNodes_trace_aux:
  "removeNodes d c s e = Some y \<Longrightarrow> (\<forall>d'. y = Inr d' \<longrightarrow> trace d' = trace d)"
proof (rule removeNodes.raw_induct [rotated 1,
      where P = "\<lambda>d c s e y. (\<forall>d'. y = Inr d' \<longrightarrow> trace d' = trace d)"], assumption)
  fix f d c s e y
  assume IH: "\<And>d c s e y. f d c s e = Some y \<Longrightarrow> (\<forall>d'. y = Inr d' \<longrightarrow> trace d' = trace d)"
    and eq: "(if s = e then Some (Inr d)
      else case s of None \<Rightarrow> Some (Inl (TypeError, d))
        | Some s' \<Rightarrow> (let n = nextSibling d s' in case c of None \<Rightarrow> Some (Inl (TypeError, d))
              | Some c' \<Rightarrow> (case removeChild d c' s' of Inl e \<Rightarrow> Some (Inl e)
                   | Inr d' \<Rightarrow> f d' c n e))) = Some y"
  show "\<forall>d'. y = Inr d' \<longrightarrow> trace d' = trace d"
  proof (intro allI impI)
    fix d' assume y: "y = Inr d'"
    show "trace d' = trace d"
    proof (cases "s = e")
      case True
      with eq y show ?thesis by simp
    next
      case False
      with eq y obtain s' c' d1 where "s = Some s'" "c = Some c'"
        and r: "removeChild d c' s' = Inr d1" and f: "f d1 c (nextSibling d s') e = Some (Inr d')"
        by (auto simp: Let_def split: option.splits sum.splits)
      from IH [OF f] removeChild_trace [OF r] show ?thesis by simp
    qed
  qed
qed

lemma removeNodes_trace: "removeNodes d c s e = Some (Inr d') \<Longrightarrow> trace d' = trace d"
  using removeNodes_trace_aux [of d c s e "Inr d'"] by simp

lemma reparentNodes_trace_aux:
  "reparentNodes d c s e b = Some y \<Longrightarrow> (\<forall>d'. y = Inr d' \<longrightarrow> trace d' = trace d)"
proof (rule reparentNodes.raw_induct [rotated 1,
      where P = "\<lambda>d c s e b y. (\<forall>d'. y = Inr d' \<longrightarrow> trace d' = trace d)"], assumption)
  fix f d c s e b y
  assume IH: "\<And>d c s e b y. f d c s e b = Some y \<Longrightarrow> (\<forall>d'. y = Inr d' \<longrightarrow> trace d' = trace d)"
    and eq: "(if s = e then Some (Inr d)
      else case s of None \<Rightarrow> Some (Inl (TypeError, d))
        | Some s' \<Rightarrow> (let n = nextSibling d s' in case c of None \<Rightarrow> Some (Inl (TypeError, d))
              | Some c' \<Rightarrow> (case insertBefore d c' s' b of Inl e \<Rightarrow> Some (Inl e)
                   | Inr d' \<Rightarrow> f d' c n e b))) = Some y"
  show "\<forall>d'. y = Inr d' \<longrightarrow> trace d' = trace d"
  proof (intro allI impI)
    fix d' assume y: "y = Inr d'"
    show "trace d' = trace d"
    proof (cases "s = e")
      case True
      with eq y show ?thesis by simp
    next
      case False
      with eq y obtain s' c' d1 where "s = Some s'" "c = Some c'"
        and r: "insertBefore d c' s' b = Inr d1" and f: "f d1 c (nextSibling d s') e b = Some (Inr d')"
        by (auto simp: Let_def split: option.splits sum.splits)
      from IH [OF f] insertBefore_trace [OF r] show ?thesis by simp
    qed
  qed
qed

lemma reparentNodes_trace: "reparentNodes d c s e b = Some (Inr d') \<Longrightarrow> trace d' = trace d"
  using reparentNodes_trace_aux [of d c s e b "Inr d'"] by simp

lemma insertNodes_trace: "insertNodes d c ks b = Inr d' \<Longrightarrow> trace d' = trace d"
proof (induction ks arbitrary: d)
  case Nil then show ?case by simp
next
  case (Cons k ks)
  from Cons.prems obtain c' d2 where c: "c = Some c'"
    and i: "insertBefore (snd (createNode d k)) c' (fst (createNode d k)) (Some b) = Inr d2"
    and r: "insertNodes d2 c ks b = Inr d'"
    by (auto split: option.splits sum.splits prod.splits)
  have "trace (snd (createNode d k)) = trace d" by (simp add: createNode_def)
  with insertBefore_trace [OF i] Cons.IH [OF r] show ?case by simp
qed

lemma commit_trace: "commit d p v = Some (Inr d') \<Longrightarrow> trace d' = trace d"
  by (auto simp: commit_def andThen_returns dest!: removeNodes_trace insertNodes_trace)

lemma updatePart_trace: "updatePart d p v = Some (Inr d') \<Longrightarrow> trace d' = trace d @ [Updated p v]"
  by (auto simp: updatePart_def andThen_returns logEvent_def dest!: commit_trace)

lemma createAndInsertPart_trace:
  "createAndInsertPart d cp b = Some (Inr (p, d')) \<Longrightarrow> trace d' = trace d @ [Created p]"
  by (auto simp: createAndInsertPart_def createMarker_def createNode_def Let_def logEvent_def
      split: sum.splits option.splits prod.splits dest!: insertBefore_trace)

lemma extends_refl: "extends d d" by (simp add: extends_def)

lemma extends_trans: "extends a b \<Longrightarrow> extends b c \<Longrightarrow> extends a c"
  by (auto simp: extends_def)

lemma extends_same: "trace d' = trace d \<Longrightarrow> extends d d'" by (simp add: extends_def)

lemma extends_log: "\<not> isCreated e \<Longrightarrow> extends d (logEvent e d)" by (simp add: extends_def logEvent_def)

lemma updatePart_extends: "updatePart d p v = Some (Inr d') \<Longrightarrow> extends d d'"
  by (drule updatePart_trace) (simp add: extends_def)

lemma insertPartBefore_extends:
  assumes "insertPartBefore d cp p r = Some (Inr d')"
  shows "extends d d'"
proof (cases "d' = d")
  case True then show ?thesis by (simp add: extends_refl)
next
  case False
  with assms obtain c s e b where "reparentNodes (logEvent (Moved p) d) c s e b = Some (Inr d')"
    by (auto simp: insertPartBefore_def Let_def split: if_splits)
  from reparentNodes_trace [OF this] show ?thesis
    by (simp add: extends_def logEvent_def)
qed

lemma tokenCommit_trace: "tokenCommit d t = Inr d' \<Longrightarrow> trace d' = trace d"
  by (auto simp: tokenCommit_def commitRemoveNode_def split: option.splits dest: removeChild_trace)

lemma removalWalk_extends_aux:
  "removalWalk d c s e h = Some y \<Longrightarrow> (\<forall>d'. y = Inr d' \<longrightarrow> extends d d')"
proof (rule removalWalk.raw_induct [rotated 1,
      where P = "\<lambda>d c s e h y. (\<forall>d'. y = Inr d' \<longrightarrow> extends d d')"], assumption)
  fix f d c s e h y
  assume IH: "\<And>d c s e h y. f d c s e h = Some y \<Longrightarrow> (\<forall>d'. y = Inr d' \<longrightarrow> extends d d')"
    and eq: "(if s = e then Some (Inr d)
      else case s of None \<Rightarrow> Some (Inl (Error ''illegal node mutation'', d))
        | Some n \<Rightarrow>
          (let next = nextSibling d n
           in if \<not> isMarker d n
              then
                (let token = \<lparr>target = n, container = c\<rparr>;
                     r = h token d;
                     d1 = logEvent (Notified n) ((snd r)\<lparr>trace := trace d\<rparr>)
                 in if \<not> fst r
                    then (case tokenCommit d1 token of
                            Inl e \<Rightarrow> Some (Inl e)
                          | Inr d2 \<Rightarrow> f d2 c next e h)
                    else f d1 c next e h)
              else f d c next e h)) = Some y"
  show "\<forall>d'. y = Inr d' \<longrightarrow> extends d d'"
  proof (intro allI impI)
    fix d' assume y: "y = Inr d'"
    show "extends d d'"
    proof (cases "s = e")
      case True
      with eq y show ?thesis by (simp add: extends_refl)
    next
      case False
      with eq y obtain n where s: "s = Some n" by (auto split: option.splits)
      let ?d1 = "logEvent (Notified n) ((snd (h \<lparr>target = n, container = c\<rparr> d))\<lparr>trace := trace d\<rparr>)"
      have e1: "extends d ?d1" by (simp add: extends_def logEvent_def)
      show ?thesis
      proof (cases "isMarker d n")
        case True
        with eq y s False have "f d c (nextSibling d n) e h = Some (Inr d')" by (simp add: Let_def)
        from IH [OF this] show ?thesis by simp
      next
        case nm: False
        show ?thesis
        proof (cases "fst (h \<lparr>target = n, container = c\<rparr> d)")
          case True
          with eq y s False nm have "f ?d1 c (nextSibling d n) e h = Some (Inr d')"
            by (simp add: Let_def)
          from IH [OF this] e1 show ?thesis by (auto intro: extends_trans)
        next
          case np: False
          with eq y s False nm obtain d2 where
            t: "tokenCommit ?d1 \<lparr>target = n, container = c\<rparr> = Inr d2"
            and f: "f d2 c (nextSibling d n) e h = Some (Inr d')"
            by (auto simp: Let_def split: sum.splits)
          have "extends ?d1 d2" using tokenCommit_trace [OF t] by (rule extends_same)
          with e1 IH [OF f] show ?thesis by (auto intro: extends_trans)
        qed
      qed
    qed
  qed
qed

lemma removePart_extends:
  assumes a: "removePart d p h = Some (Inr d')"
  shows "extends d d'"
proof -
  have l: "extends d (logEvent (Removed p) d)" by (simp add: extends_def logEvent_def)
  show ?thesis
  proof (cases h)
    case None
    with a have "trace d' = trace (logEvent (Removed p) d)"
      by (auto simp: removePart_def removeNodesWithRemovalHandler_def dest!: removeNodes_trace)
    then show ?thesis by (simp add: extends_def logEvent_def)
  next
    case (Some f)
    with a have "extends (logEvent (Removed p) d) d'"
      using removalWalk_extends_aux [of "logEvent (Removed p) d" _ _ _ f "Inr d'"]
      by (auto simp: removePart_def removeNodesWithRemovalHandler_def)
    with l show ?thesis by (rule extends_trans)
  qed
qed

section \<open>One iteration of the main loop\<close>

lemma grows_refl: "grows d d" by (simp add: grows_def)
lemma grows_trans: "grows a b \<Longrightarrow> grows b c \<Longrightarrow> grows a c" by (auto simp: grows_def)
lemma extends_grows: "extends d d' \<Longrightarrow> grows d d'" by (auto simp: extends_def grows_def)
lemma grows_log: "grows d (logEvent e d)" by (simp add: grows_def logEvent_def)
lemma since_mono: "grows a b \<Longrightarrow> grows b c \<Longrightarrow> set (since a b) \<subseteq> set (since a c)"
  by (auto simp: grows_def since_def)
lemma since_mono2: "grows a b \<Longrightarrow> grows b c \<Longrightarrow> set (since b c) \<subseteq> set (since a c)"
  by (auto simp: grows_def since_def)

lemma createAndInsertPart_grows:
  "createAndInsertPart d cp b = Some (Inr (p, d')) \<Longrightarrow> grows d d' \<and> Created p \<in> set (since d d')"
  by (drule createAndInsertPart_trace) (simp add: grows_def since_def)

lemma at_Ref_mem: "at xs i = Ref p \<Longrightarrow> Ref p \<in> set xs"
proof -
  assume a: "at xs i = Ref p"
  then have "0 \<le> i \<and> i < int (length xs)" by (auto simp: at_def split: if_splits)
  then have "nat i < length xs" by linarith
  from nth_mem [OF this] a show ?thesis by (auto simp: at_def split: if_splits)
qed

lemma put_Null_mem: "Ref p \<in> set (put xs i Null) \<Longrightarrow> Ref p \<in> set xs"
  by (auto simp: put_def split: if_splits dest: set_update_subset_insert [THEN subsetD])

lemma deref_returns: "deref d x = Some (Inr p) \<longleftrightarrow> x = Ref p"
  by (auto simp: deref_def split: slot.splits)

lemma reconcileStep_cases [consumes 1, case_names skipHead skipTail headHead tailTail headTail
    tailHead removeHead removeTail create reuse]:
  assumes step: "reconcileStep cp oks nks nvs h s = Some (Inr s')"
  obtains
    (skipHead) "at (oldParts s) (oldHead s) = Null" "s' = s\<lparr>oldHead := oldHead s + 1\<rparr>"
  | (skipTail) "at (oldParts s) (oldHead s) \<noteq> Null" "at (oldParts s) (oldTail s) = Null"
      "s' = s\<lparr>oldTail := oldTail s - 1\<rparr>"
  | (headHead) part d where
      "at (oldParts s) (oldHead s) = Ref part" "at (oldParts s) (oldTail s) \<noteq> Null"
      "elt oks (oldHead s) = elt nks (newHead s)"
      "updatePart (doc s) part (elt nvs (newHead s)) = Some (Inr d)"
      "s' = s\<lparr>doc := d, newParts := put (newParts s) (newHead s) (Ref part),
                oldHead := oldHead s + 1, newHead := newHead s + 1\<rparr>"
  | (tailTail) part d where
      "at (oldParts s) (oldHead s) \<noteq> Null" "at (oldParts s) (oldTail s) = Ref part"
      "elt oks (oldHead s) \<noteq> elt nks (newHead s)"
      "elt oks (oldTail s) = elt nks (newTail s)"
      "updatePart (doc s) part (elt nvs (newTail s)) = Some (Inr d)"
      "s' = s\<lparr>doc := d, newParts := put (newParts s) (newTail s) (Ref part),
                oldTail := oldTail s - 1, newTail := newTail s - 1\<rparr>"
  | (headTail) part d d' where
      "at (oldParts s) (oldHead s) = Ref part" "at (oldParts s) (oldTail s) \<noteq> Null"
      "elt oks (oldHead s) \<noteq> elt nks (newHead s)"
      "elt oks (oldTail s) \<noteq> elt nks (newTail s)"
      "elt oks (oldHead s) = elt nks (newTail s)"
      "updatePart (doc s) part (elt nvs (newTail s)) = Some (Inr d)"
      "insertPartBefore d cp part (at (put (newParts s) (newTail s) (Ref part)) (newTail s + 1)) = Some (Inr d')"
      "s' = s\<lparr>doc := d', newParts := put (newParts s) (newTail s) (Ref part),
                oldHead := oldHead s + 1, newTail := newTail s - 1\<rparr>"
  | (tailHead) part d d' where
      "at (oldParts s) (oldHead s) \<noteq> Null" "at (oldParts s) (oldTail s) = Ref part"
      "elt oks (oldHead s) \<noteq> elt nks (newHead s)"
      "elt oks (oldTail s) \<noteq> elt nks (newTail s)"
      "elt oks (oldHead s) \<noteq> elt nks (newTail s)"
      "elt oks (oldTail s) = elt nks (newHead s)"
      "updatePart (doc s) part (elt nvs (newHead s)) = Some (Inr d)"
      "insertPartBefore d cp part (at (oldParts s) (oldHead s)) = Some (Inr d')"
      "s' = s\<lparr>doc := d', newParts := put (newParts s) (newHead s) (Ref part),
                oldTail := oldTail s - 1, newHead := newHead s + 1\<rparr>"
  | (removeHead) newMap part d where
      "stuck oks nks s" "newKeyToIndexMap (ensureMaps oks nks s) = Some newMap"
      "newMap (elt oks (oldHead s)) = None"
      "at (oldParts s) (oldHead s) = Ref part"
      "removePart (doc (ensureMaps oks nks s)) part h = Some (Inr d)"
      "s' = (ensureMaps oks nks s)\<lparr>doc := d, oldHead := oldHead s + 1\<rparr>"
  | (removeTail) newMap part d where
      "stuck oks nks s" "newKeyToIndexMap (ensureMaps oks nks s) = Some newMap"
      "newMap (elt oks (oldHead s)) \<noteq> None" "newMap (elt oks (oldTail s)) = None"
      "at (oldParts s) (oldTail s) = Ref part"
      "removePart (doc (ensureMaps oks nks s)) part h = Some (Inr d)"
      "s' = (ensureMaps oks nks s)\<lparr>doc := d, oldTail := oldTail s - 1\<rparr>"
  | (create) newMap oldMap newPart d d' where
      "stuck oks nks s" "newKeyToIndexMap (ensureMaps oks nks s) = Some newMap"
      "newMap (elt oks (oldHead s)) \<noteq> None" "newMap (elt oks (oldTail s)) \<noteq> None"
      "oldKeyToIndexMap (ensureMaps oks nks s) = Some oldMap"
      "(case oldMap (elt nks (newHead s)) of None \<Rightarrow> Null | Some i \<Rightarrow> at (oldParts s) i) = Null"
      "createAndInsertPart (doc (ensureMaps oks nks s)) cp (at (oldParts s) (oldHead s)) = Some (Inr (newPart, d))"
      "updatePart d newPart (elt nvs (newHead s)) = Some (Inr d')"
      "s' = (ensureMaps oks nks s)\<lparr>doc := d', newParts := put (newParts s) (newHead s) (Ref newPart),
                newHead := newHead s + 1\<rparr>"
  | (reuse) newMap oldMap i part d d' where
      "stuck oks nks s" "newKeyToIndexMap (ensureMaps oks nks s) = Some newMap"
      "newMap (elt oks (oldHead s)) \<noteq> None" "newMap (elt oks (oldTail s)) \<noteq> None"
      "oldKeyToIndexMap (ensureMaps oks nks s) = Some oldMap"
      "oldMap (elt nks (newHead s)) = Some i" "at (oldParts s) i = Ref part"
      "updatePart (doc (ensureMaps oks nks s)) part (elt nvs (newHead s)) = Some (Inr d)"
      "insertPartBefore d cp part (at (oldParts s) (oldHead s)) = Some (Inr d')"
      "s' = (ensureMaps oks nks s)\<lparr>doc := d', newParts := put (newParts s) (newHead s) (Ref part),
                oldParts := put (oldParts s) i Null, newHead := newHead s + 1\<rparr>"
proof (cases "at (oldParts s) (oldHead s) = Null")
  case True
  with step have "s' = s\<lparr>oldHead := oldHead s + 1\<rparr>" by (simp add: reconcileStep_def)
  with True show ?thesis by (rule skipHead)
next
  case h: False
  show ?thesis
  proof (cases "at (oldParts s) (oldTail s) = Null")
    case True
    with step h have "s' = s\<lparr>oldTail := oldTail s - 1\<rparr>" by (simp add: reconcileStep_def)
    with h True show ?thesis by (rule skipTail)
  next
    case t: False
    show ?thesis
    proof (cases "elt oks (oldHead s) = elt nks (newHead s)")
      case True
      with step h t obtain part d where
        "at (oldParts s) (oldHead s) = Ref part"
        "updatePart (doc s) part (elt nvs (newHead s)) = Some (Inr d)"
        "s' = s\<lparr>doc := d, newParts := put (newParts s) (newHead s) (Ref part),
                oldHead := oldHead s + 1, newHead := newHead s + 1\<rparr>"
        by (auto simp: reconcileStep_def andThen_returns deref_returns)
      with t True show ?thesis by (intro headHead)
    next
      case hh: False
      show ?thesis
      proof (cases "elt oks (oldTail s) = elt nks (newTail s)")
        case True
        with step h t hh obtain part d where
          "at (oldParts s) (oldTail s) = Ref part"
          "updatePart (doc s) part (elt nvs (newTail s)) = Some (Inr d)"
          "s' = s\<lparr>doc := d, newParts := put (newParts s) (newTail s) (Ref part),
                oldTail := oldTail s - 1, newTail := newTail s - 1\<rparr>"
          by (auto simp: reconcileStep_def andThen_returns deref_returns)
        with h hh True show ?thesis by (intro tailTail)
      next
        case tt: False
        show ?thesis
        proof (cases "elt oks (oldHead s) = elt nks (newTail s)")
          case True
          with step h t hh tt obtain part d d' where
            "at (oldParts s) (oldHead s) = Ref part"
            "updatePart (doc s) part (elt nvs (newTail s)) = Some (Inr d)"
            "insertPartBefore d cp part (at (put (newParts s) (newTail s) (Ref part)) (newTail s + 1)) = Some (Inr d')"
            "s' = s\<lparr>doc := d', newParts := put (newParts s) (newTail s) (Ref part),
                oldHead := oldHead s + 1, newTail := newTail s - 1\<rparr>"
            by (auto simp: reconcileStep_def andThen_returns deref_returns Let_def)
          with t hh tt True show ?thesis by (intro headTail)
        next
          case ht: False
          show ?thesis
          proof (cases "elt oks (oldTail s) = elt nks (newHead s)")
            case True
            with step h t hh tt ht obtain part d d' where
              "at (oldParts s) (oldTail s) = Ref part"
              "updatePart (doc s) part (elt nvs (newHead s)) = Some (Inr d)"
              "insertPartBefore d cp part (at (oldParts s) (oldHead s)) = Some (Inr d')"
              "s' = s\<lparr>doc := d', newParts := put (newParts s) (newHead s) (Ref part),
                oldTail := oldTail s - 1, newHead := newHead s + 1\<rparr>"
              by (auto simp: reconcileStep_def andThen_returns deref_returns)
            with h hh tt ht True show ?thesis by (intro tailHead)
          next
            case th: False
            have st: "stuck oks nks s" using h t hh tt ht th by (simp add: stuck_def)
            let ?s1 = "ensureMaps oks nks s"
            from step h t hh tt ht th obtain newMap where nm: "newKeyToIndexMap ?s1 = Some newMap"
              by (auto simp: reconcileStep_def Let_def split: option.splits)
            show ?thesis
            proof (cases "newMap (elt oks (oldHead s)) = None")
              case True
              with step h t hh tt ht th nm obtain part d where
                "at (oldParts s) (oldHead s) = Ref part"
                "removePart (doc ?s1) part h = Some (Inr d)"
                "s' = ?s1\<lparr>doc := d, oldHead := oldHead s + 1\<rparr>"
                by (auto simp: reconcileStep_def andThen_returns deref_returns Let_def)
              with st nm True show ?thesis by (intro removeHead)
            next
              case rh: False
              show ?thesis
              proof (cases "newMap (elt oks (oldTail s)) = None")
                case True
                with step h t hh tt ht th nm rh obtain part d where
                  "at (oldParts s) (oldTail s) = Ref part"
                  "removePart (doc ?s1) part h = Some (Inr d)"
                  "s' = ?s1\<lparr>doc := d, oldTail := oldTail s - 1\<rparr>"
                  by (auto simp: reconcileStep_def andThen_returns deref_returns Let_def)
                with st nm rh True show ?thesis by (intro removeTail)
              next
                case rt: False
                from step h t hh tt ht th nm rh rt obtain oldMap where om: "oldKeyToIndexMap ?s1 = Some oldMap"
                  by (auto simp: reconcileStep_def Let_def split: option.splits)
                let ?oldPart = "case oldMap (elt nks (newHead s)) of None \<Rightarrow> Null | Some i \<Rightarrow> at (oldParts s) i"
                show ?thesis
                proof (cases "?oldPart = Null")
                  case True
                  with step h t hh tt ht th nm rh rt om obtain newPart d d' where
                    "createAndInsertPart (doc ?s1) cp (at (oldParts s) (oldHead s)) = Some (Inr (newPart, d))"
                    "updatePart d newPart (elt nvs (newHead s)) = Some (Inr d')"
                    "s' = ?s1\<lparr>doc := d', newParts := put (newParts s) (newHead s) (Ref newPart),
                        newHead := newHead s + 1\<rparr>"
                    by (auto simp: reconcileStep_def andThen_returns Let_def)
                  with st nm rh rt om True show ?thesis by (intro create)
                next
                  case False
                  with step h t hh tt ht th nm rh rt om obtain part d d' where
                    p: "?oldPart = Ref part"
                    and u: "updatePart (doc ?s1) part (elt nvs (newHead s)) = Some (Inr d)"
                      "insertPartBefore d cp part (at (oldParts s) (oldHead s)) = Some (Inr d')"
                      "s' = ?s1\<lparr>doc := d', newParts := put (newParts s) (newHead s) (Ref part),
                        oldParts := (case oldMap (elt nks (newHead s)) of None \<Rightarrow> oldParts s
                                      | Some i \<Rightarrow> put (oldParts s) i Null),
                        newHead := newHead s + 1\<rparr>"
                    by (auto simp: reconcileStep_def andThen_returns deref_returns Let_def)
                  from p obtain i where i: "oldMap (elt nks (newHead s)) = Some i" "at (oldParts s) i = Ref part"
                    by (auto split: option.splits)
                  with u have "s' = ?s1\<lparr>doc := d', newParts := put (newParts s) (newHead s) (Ref part),
                        oldParts := put (oldParts s) i Null, newHead := newHead s + 1\<rparr>" by simp
                  with st nm rh rt om i u show ?thesis by (intro reuse)
                qed
              qed
            qed
          qed
        qed
      qed
    qed
  qed
qed

lemma ensureMaps_fields [simp]:
  "oldParts (ensureMaps oks nks s) = oldParts s"
  "newParts (ensureMaps oks nks s) = newParts s"
  "oldHead (ensureMaps oks nks s) = oldHead s"
  "oldTail (ensureMaps oks nks s) = oldTail s"
  "newHead (ensureMaps oks nks s) = newHead s"
  "newTail (ensureMaps oks nks s) = newTail s"
  by (simp_all add: ensureMaps_def)

lemma ensureMaps_extends: "extends (doc s) (doc (ensureMaps oks nks s))"
  by (simp add: ensureMaps_def extends_def logEvent_def)

lemma reconcileStep_effect:
  assumes "reconcileStep cp oks nks nvs h s = Some (Inr s')"
  shows "grows (doc s) (doc s') \<and> (\<forall>p. Ref p \<in> set (oldParts s') \<longrightarrow> Ref p \<in> set (oldParts s)) \<and>
   ( (newParts s' = newParts s \<and> newHead s' = newHead s \<and> newTail s' = newTail s)
   \<or> (\<exists>p. newParts s' = put (newParts s) (newHead s) (Ref p) \<and> newHead s' = newHead s + 1 \<and> newTail s' = newTail s
          \<and> (Ref p \<in> set (oldParts s) \<or> Created p \<in> set (since (doc s) (doc s'))))
   \<or> (\<exists>p. newParts s' = put (newParts s) (newTail s) (Ref p) \<and> newHead s' = newHead s \<and> newTail s' = newTail s - 1
          \<and> Ref p \<in> set (oldParts s)))"
  using assms
proof (cases rule: reconcileStep_cases)
  case skipHead
  then show ?thesis by (simp add: grows_refl)
next
  case skipTail
  then show ?thesis by (simp add: grows_refl)
next
  case (headHead part d)
  then show ?thesis by (auto dest!: updatePart_extends extends_grows at_Ref_mem)
next
  case (tailTail part d)
  then show ?thesis by (auto dest!: updatePart_extends extends_grows at_Ref_mem)
next
  case (headTail part d d')
  then show ?thesis
    by (auto dest!: updatePart_extends insertPartBefore_extends extends_grows at_Ref_mem intro: grows_trans)
next
  case (tailHead part d d')
  then show ?thesis
    by (auto dest!: updatePart_extends insertPartBefore_extends extends_grows at_Ref_mem intro: grows_trans)
next
  case (removeHead newMap part d)
  from removeHead(5) have "grows (doc (ensureMaps oks nks s)) d" by (auto dest!: removePart_extends extends_grows)
  with extends_grows [OF ensureMaps_extends, of s oks nks] have "grows (doc s) d" by (rule grows_trans)
  with removeHead show ?thesis by simp
next
  case (removeTail newMap part d)
  from removeTail(6) have "grows (doc (ensureMaps oks nks s)) d" by (auto dest!: removePart_extends extends_grows)
  with extends_grows [OF ensureMaps_extends, of s oks nks] have "grows (doc s) d" by (rule grows_trans)
  with removeTail show ?thesis by simp
next
  case (create newMap oldMap newPart d d')
  let ?s1 = "ensureMaps oks nks s"
  have g0: "grows (doc s) (doc ?s1)" by (rule extends_grows [OF ensureMaps_extends])
  from createAndInsertPart_grows [OF create(7)] have g1: "grows (doc ?s1) d" and c: "Created newPart \<in> set (since (doc ?s1) d)"
    by simp_all
  have g2: "grows d d'" using create(8) by (auto dest!: updatePart_extends extends_grows)
  have g: "grows (doc s) d'" using g0 g1 g2 by (blast intro: grows_trans)
  have "Created newPart \<in> set (since (doc s) d)" using since_mono2 [OF g0 g1] c by auto
  then have "Created newPart \<in> set (since (doc s) d')" using since_mono [OF grows_trans [OF g0 g1] g2] by auto
  with g create(9) show ?thesis by auto
next
  case (reuse newMap oldMap i part d d')
  let ?s1 = "ensureMaps oks nks s"
  have g0: "grows (doc s) (doc ?s1)" by (rule extends_grows [OF ensureMaps_extends])
  have g1: "grows (doc ?s1) d" using reuse(8) by (auto dest!: updatePart_extends extends_grows)
  have g2: "grows d d'" using reuse(9) by (auto dest!: insertPartBefore_extends extends_grows)
  have g: "grows (doc s) d'" using g0 g1 g2 by (blast intro: grows_trans)
  with reuse(7,10) show ?thesis by (auto dest: at_Ref_mem put_Null_mem)
qed

lemma filled_step:
  assumes f: "filled n ops0 d0 s" and g: "newHead s \<le> newTail s"
    and step: "reconcileStep cp oks nks nvs h s = Some (Inr s')"
  shows "filled n ops0 d0 s'"
proof -
  note e = reconcileStep_effect [OF step]
  from f have g0: "grows d0 (doc s)" by (simp add: filled_def)
  from e have g1: "grows (doc s) (doc s')" by simp
  have g2: "grows d0 (doc s')" using g0 g1 by (rule grows_trans)
  have mono: "\<And>p. Created p \<in> set (since d0 (doc s)) \<Longrightarrow> Created p \<in> set (since d0 (doc s'))"
    using since_mono [OF g0 g1] by auto
  have mono2: "\<And>p. Created p \<in> set (since (doc s) (doc s')) \<Longrightarrow> Created p \<in> set (since d0 (doc s'))"
    using since_mono2 [OF g0 g1] by auto
  have old: "\<forall>p. Ref p \<in> set (oldParts s') \<longrightarrow> Ref p \<in> set ops0"
    using e f by (auto simp: filled_def)
  from e consider
      (same) "newParts s' = newParts s" "newHead s' = newHead s" "newTail s' = newTail s"
    | (head) p where "newParts s' = put (newParts s) (newHead s) (Ref p)" "newHead s' = newHead s + 1"
        "newTail s' = newTail s" "Ref p \<in> set (oldParts s) \<or> Created p \<in> set (since (doc s) (doc s'))"
    | (tail) p where "newParts s' = put (newParts s) (newTail s) (Ref p)" "newHead s' = newHead s"
        "newTail s' = newTail s - 1" "Ref p \<in> set (oldParts s)"
    by blast
  then show ?thesis
  proof cases
    case same
    with f g2 old mono show ?thesis unfolding filled_def by (auto 4 3)
  next
    case (head p)
    have nh: "0 \<le> newHead s" using f by (simp add: filled_def)
    have src: "Ref p \<in> set ops0 \<or> Created p \<in> set (since d0 (doc s'))"
      using head(4) f mono2 by (auto simp: filled_def)
    have len: "int (length (newParts s')) \<le> n"
      using f g nh by (auto simp: head(1) length_put filled_def max_def)
    have slots: "\<forall>i. (0 \<le> i \<and> i < newHead s') \<or> (newTail s' < i \<and> i < n) \<longrightarrow>
            (\<exists>p. at (newParts s') i = Ref p
                 \<and> (Ref p \<in> set ops0 \<or> Created p \<in> set (since d0 (doc s'))))"
    proof (intro allI impI)
      fix i assume i: "(0 \<le> i \<and> i < newHead s') \<or> (newTail s' < i \<and> i < n)"
      show "\<exists>p. at (newParts s') i = Ref p \<and> (Ref p \<in> set ops0 \<or> Created p \<in> set (since d0 (doc s')))"
      proof (cases "i = newHead s")
        case True
        then show ?thesis using src nh by (simp add: head(1) at_put)
      next
        case False
        with i head have "(0 \<le> i \<and> i < newHead s) \<or> (newTail s < i \<and> i < n)" by auto
        with f obtain q where "at (newParts s) i = Ref q" "Ref q \<in> set ops0 \<or> Created q \<in> set (since d0 (doc s))"
          unfolding filled_def by blast
        with False nh mono show ?thesis by (auto simp: head(1) at_put)
      qed
    qed
    from f g head(2,3) len g2 old slots show ?thesis unfolding filled_def by simp
  next
    case (tail p)
    have nh: "0 \<le> newTail s" using f g by (simp add: filled_def)
    have src: "Ref p \<in> set ops0"
      using tail(4) f by (auto simp: filled_def)
    have len: "int (length (newParts s')) \<le> n"
      using f g nh by (auto simp: tail(1) length_put filled_def max_def)
    have slots: "\<forall>i. (0 \<le> i \<and> i < newHead s') \<or> (newTail s' < i \<and> i < n) \<longrightarrow>
            (\<exists>p. at (newParts s') i = Ref p
                 \<and> (Ref p \<in> set ops0 \<or> Created p \<in> set (since d0 (doc s'))))"
    proof (intro allI impI)
      fix i assume i: "(0 \<le> i \<and> i < newHead s') \<or> (newTail s' < i \<and> i < n)"
      show "\<exists>p. at (newParts s') i = Ref p \<and> (Ref p \<in> set ops0 \<or> Created p \<in> set (since d0 (doc s')))"
      proof (cases "i = newTail s")
        case True
        then show ?thesis using src nh by (simp add: tail(1) at_put)
      next
        case False
        with i tail have "(0 \<le> i \<and> i < newHead s) \<or> (newTail s < i \<and> i < n)" by auto
        with f obtain q where "at (newParts s) i = Ref q" "Ref q \<in> set ops0 \<or> Created q \<in> set (since d0 (doc s))"
          unfolding filled_def by blast
        with False nh mono show ?thesis by (auto simp: tail(1) at_put)
      qed
    qed
    from f g tail(2,3) len g2 old slots show ?thesis unfolding filled_def by simp
  qed
qed

section \<open>The new parts array\<close>

lemma filled_reconcile:
  "reconcile cp oks nks nvs h s = Some (Inr s') \<Longrightarrow> filled n ops0 d0 s \<Longrightarrow> filled n ops0 d0 s'"
proof (induction cp oks nks nvs h s rule: reconcile.induct)
  case (1 cp oks nks nvs h s)
  show ?case
  proof (cases "oldHead s \<le> oldTail s \<and> newHead s \<le> newTail s")
    case False
    with "1.prems" show ?thesis by (subst (asm) reconcile.simps) simp
  next
    case True
    with "1.prems"(1) obtain x where
      st: "reconcileStep cp oks nks nvs h s = Some (Inr x)"
      and r: "reconcile cp oks nks nvs h x = Some (Inr s')"
      by (subst (asm) reconcile.simps) (auto simp: andThen_returns)
    from filled_step [OF "1.prems"(2) _ st] True have "filled n ops0 d0 x" by simp
    from "1.IH" [OF True st r this] show ?thesis .
  qed
qed

lemma filled_addRemaining:
  "addRemaining cp nvs s = Some (Inr s') \<Longrightarrow> filled n ops0 d0 s \<Longrightarrow>
   filled n ops0 d0 s' \<and> newTail s' < newHead s'"
proof (induction cp nvs s rule: addRemaining.induct)
  case (1 cp nvs s)
  show ?case
  proof (cases "newHead s \<le> newTail s")
    case False
    with "1.prems" show ?thesis by (subst (asm) addRemaining.simps) simp
  next
    case True
    with "1.prems"(1) obtain newPart d d' where
      c: "createAndInsertPart (doc s) cp (at (newParts s) (newTail s + 1)) = Some (Inr (newPart, d))"
      and u: "updatePart d newPart (elt nvs (newHead s)) = Some (Inr d')"
      and r: "addRemaining cp nvs (s\<lparr>doc := d', newParts := put (newParts s) (newHead s) (Ref newPart),
               newHead := newHead s + 1\<rparr>) = Some (Inr s')"
      by (subst (asm) addRemaining.simps) (auto simp: andThen_returns)
    let ?x = "s\<lparr>doc := d', newParts := put (newParts s) (newHead s) (Ref newPart), newHead := newHead s + 1\<rparr>"
    from "1.prems"(2) have g0: "grows d0 (doc s)" and nh: "0 \<le> newHead s" by (simp_all add: filled_def)
    from createAndInsertPart_grows [OF c] have g1: "grows (doc s) d" and cr: "Created newPart \<in> set (since (doc s) d)"
      by simp_all
    have g2: "grows d d'" using u by (auto dest!: updatePart_extends extends_grows)
    have g01: "grows d0 d" using g0 g1 by (rule grows_trans)
    have g: "grows d0 d'" using g01 g2 by (rule grows_trans)
    have cr': "Created newPart \<in> set (since d0 d')"
      using since_mono2 [OF g0 g1] since_mono [OF g01 g2] cr by auto
    have mono: "\<And>p. Created p \<in> set (since d0 (doc s)) \<Longrightarrow> Created p \<in> set (since d0 d')"
      using since_mono [OF g0 grows_trans [OF g1 g2]] by auto
    have len: "int (length (put (newParts s) (newHead s) (Ref newPart))) \<le> n"
      using "1.prems"(2) True nh by (auto simp: length_put filled_def max_def)
    have slots: "\<forall>i. (0 \<le> i \<and> i < newHead s + 1) \<or> (newTail s < i \<and> i < n) \<longrightarrow>
            (\<exists>p. at (put (newParts s) (newHead s) (Ref newPart)) i = Ref p
                 \<and> (Ref p \<in> set ops0 \<or> Created p \<in> set (since d0 d')))"
    proof (intro allI impI)
      fix i assume i: "(0 \<le> i \<and> i < newHead s + 1) \<or> (newTail s < i \<and> i < n)"
      show "\<exists>p. at (put (newParts s) (newHead s) (Ref newPart)) i = Ref p
                 \<and> (Ref p \<in> set ops0 \<or> Created p \<in> set (since d0 d'))"
      proof (cases "i = newHead s")
        case True
        then show ?thesis using cr' nh by (simp add: at_put)
      next
        case False
        with i have "(0 \<le> i \<and> i < newHead s) \<or> (newTail s < i \<and> i < n)" by auto
        with "1.prems"(2) obtain q where "at (newParts s) i = Ref q"
          "Ref q \<in> set ops0 \<or> Created q \<in> set (since d0 (doc s))"
          unfolding filled_def by blast
        with False nh mono show ?thesis by (auto simp: at_put)
      qed
    qed
    have "filled n ops0 d0 ?x"
      using "1.prems"(2) True len g slots unfolding filled_def by simp
    from "1.IH" [OF True c refl u r this] show ?thesis .
  qed
qed

lemma removeRemaining_keeps:
  "removeRemaining h s = Some (Inr s') \<Longrightarrow>
   newParts s' = newParts s \<and> extends (doc s) (doc s')"
proof (induction h s rule: removeRemaining.induct)
  case (1 h s)
  show ?case
  proof (cases "oldHead s \<le> oldTail s")
    case False
    with "1.prems" show ?thesis by (subst (asm) removeRemaining.simps) (simp add: extends_refl)
  next
    case True
    show ?thesis
    proof (cases "at (oldParts s) (oldHead s) = Null")
      case n: True
      with True "1.prems" have r: "removeRemaining h (s\<lparr>oldHead := oldHead s + 1\<rparr>) = Some (Inr s')"
        by (subst (asm) removeRemaining.simps) (simp add: Let_def)
      from "1.IH"(2) [OF True refl refl _ r] n show ?thesis by simp
    next
      case nn: False
      with True "1.prems" obtain part d where
        p: "at (oldParts s) (oldHead s) = Ref part"
        and rm: "removePart (doc s) part h = Some (Inr d)"
        and r: "removeRemaining h (s\<lparr>oldHead := oldHead s + 1, doc := d\<rparr>) = Some (Inr s')"
        by (subst (asm) removeRemaining.simps) (auto simp: Let_def andThen_returns deref_returns)
      from "1.IH"(1) [OF True refl refl nn _ rm r] p removePart_extends [OF rm] show ?thesis
        by (auto simp: deref_returns intro: extends_trans)
    qed
  qed
qed

lemma keysAndValues_length:
  "keysAndValues kf t items i = Inr (ks, vs) \<Longrightarrow> length ks = length items \<and> length vs = length items"
proof (induction items arbitrary: i ks vs)
  case Nil then show ?case by simp
next
  case (Cons x xs)
  then show ?case by (auto simp: Let_def split: option.splits sum.splits prod.splits)
qed

lemma all_Ref_map: "(\<forall>x\<in>set xs. \<exists>p. x = Ref p \<and> P p) \<Longrightarrow> \<exists>ps. xs = map Ref ps \<and> (\<forall>p\<in>set ps. P p)"
proof (induction xs)
  case Nil then show ?case by simp
next
  case (Cons x xs)
  then obtain p ps where "x = Ref p" "P p" "xs = map Ref ps" "\<forall>p\<in>set ps. P p" by auto
  then have "x # xs = map Ref (p # ps) \<and> (\<forall>q\<in>set (p # ps). P q)" by simp
  then show ?case by (rule exI [of _ "p # ps"])
qed

lemma filled_done:
  assumes f: "filled n ops0 d0 s" and fin: "newTail s < newHead s"
  shows "\<exists>ps. newParts s = map Ref ps \<and> int (length ps) = n
             \<and> (\<forall>p\<in>set ps. Ref p \<in> set ops0 \<or> Created p \<in> set (since d0 (doc s)))"
proof -
  from f fin have all: "\<And>i. 0 \<le> i \<Longrightarrow> i < n \<Longrightarrow>
      \<exists>p. at (newParts s) i = Ref p \<and> (Ref p \<in> set ops0 \<or> Created p \<in> set (since d0 (doc s)))"
    unfolding filled_def by (metis not_le_imp_less order.strict_trans1 zle_add1_eq_le zless_add1_eq)
  have n0: "0 \<le> n" using f by (simp add: filled_def)
  have len: "int (length (newParts s)) = n"
  proof (rule ccontr)
    assume "int (length (newParts s)) \<noteq> n"
    with f have lt: "int (length (newParts s)) < n" by (simp add: filled_def)
    from all [OF _ lt] show False by (simp add: at_def)
  qed
  have "\<forall>x\<in>set (newParts s). \<exists>p. x = Ref p \<and> (Ref p \<in> set ops0 \<or> Created p \<in> set (since d0 (doc s)))"
  proof
    fix x assume "x \<in> set (newParts s)"
    then obtain k where k: "k < length (newParts s)" "newParts s ! k = x" by (auto simp: in_set_conv_nth)
    with len all [of "int k"] show "\<exists>p. x = Ref p \<and> (Ref p \<in> set ops0 \<or> Created p \<in> set (since d0 (doc s)))"
      by (auto simp: at_def)
  qed
  from all_Ref_map [OF this] len show ?thesis by auto
qed

section \<open>Passes that match at the head\<close>



lemma at_beyond: "int (length xs) \<le> i \<Longrightarrow> at xs i = Hole"
  by (simp add: at_def)




lemma repeat_returns:
  "repeat items kt t h (OfNodePart cp) w = Some (Inr w') \<longleftrightarrow>
     (\<exists>ks vs s1 s2 s3.
        keysAndValues (keyFnOf kt t) (templateOf kt t) items 0 = Inr (ks, vs)
      \<and> reconcile cp (cachedKeys w cp) ks vs h (startOfPass (document w) (cachedParts w cp) vs) = Some (Inr s1)
      \<and> addRemaining cp vs s1 = Some (Inr s2)
      \<and> removeRemaining h s2 = Some (Inr s3)
      \<and> w' = w\<lparr>document := doc s3,
                 partListCache := (partListCache w)(cp \<mapsto> newParts s3),
                 keyListCache := (keyListCache w)(cp \<mapsto> ks)\<rparr>)"
proof -
  have chain: "andThen (reconcile cp oks ks vs h s0)
                 (\<lambda>s1. andThen (addRemaining cp vs s1) (\<lambda>s2. removeRemaining h s2)) = Some (Inr s3)
               \<longleftrightarrow> (\<exists>s1 s2. reconcile cp oks ks vs h s0 = Some (Inr s1)
                     \<and> addRemaining cp vs s1 = Some (Inr s2) \<and> removeRemaining h s2 = Some (Inr s3))"
    for oks ks vs s0 s3
    by (auto simp: andThen_returns)
  show ?thesis
  proof (cases "keysAndValues (keyFnOf kt t) (templateOf kt t) items 0")
    case (Inl e)
    then show ?thesis by (simp add: repeat_def Let_def)
  next
    case (Inr kv)
    obtain ks vs where kv: "kv = (ks, vs)" by (cases kv)
    let ?r = "andThen (reconcile cp (cachedKeys w cp) ks vs h (startOfPass (document w) (cachedParts w cp) vs))
                 (\<lambda>s1. andThen (addRemaining cp vs s1) (\<lambda>s2. removeRemaining h s2))"
    have "repeat items kt t h (OfNodePart cp) w = Some (Inr w') \<longleftrightarrow>
          (\<exists>s3. ?r = Some (Inr s3) \<and> w' = w\<lparr>document := doc s3,
                 partListCache := (partListCache w)(cp \<mapsto> newParts s3),
                 keyListCache := (keyListCache w)(cp \<mapsto> ks)\<rparr>)"
      by (auto simp: repeat_def Let_def Inr kv split: option.splits sum.splits prod.splits)
    then show ?thesis unfolding chain by (auto simp: Inr kv)
  qed
qed

lemma filled_start: "filled (int (length vs)) ops0 d (startOfPass d ops0 vs)"
  by (auto simp: filled_def startOfPass_def grows_refl)

lemma since_trans:
  assumes "grows a b" and "extends b c"
  shows "Created p \<in> set (since a b) \<longleftrightarrow> Created p \<in> set (since a c)"
proof -
  from assms obtain es es' where t: "trace b = trace a @ es" "trace c = trace b @ es'"
    and n: "list_all (\<lambda>e. \<not> isCreated e) es'"
    by (auto simp: grows_def extends_def)
  have "Created p \<notin> set es'"
  proof
    assume m: "Created p \<in> set es'"
    from n have "\<forall>e\<in>set es'. \<not> isCreated e" by (simp add: list_all_iff)
    from bspec [OF this m] show False by simp
  qed
  with t show ?thesis by (simp add: since_def)
qed




lemma repeat_live_parts:
  assumes "repeat items keyFnOrTemplate template onRemove (OfNodePart cp) w = Some (Inr w')"
  shows "\<exists>ps ks. partListCache w' cp = Some (map Ref ps) \<and> keyListCache w' cp = Some ks
           \<and> length ps = length items \<and> length ks = length items
           \<and> list_all (\<lambda>p. Ref p \<in> set (cachedParts w cp)
                          \<or> Created p \<in> set (since (document w) (document w'))) ps"
proof -
  from assms obtain ks vs s1 s2 s3 where
    kv: "keysAndValues (keyFnOf keyFnOrTemplate template) (templateOf keyFnOrTemplate template) items 0 = Inr (ks, vs)"
    and r: "reconcile cp (cachedKeys w cp) ks vs onRemove (startOfPass (document w) (cachedParts w cp) vs) = Some (Inr s1)"
    and a: "addRemaining cp vs s1 = Some (Inr s2)"
    and rm: "removeRemaining onRemove s2 = Some (Inr s3)"
    and w': "w' = w\<lparr>document := doc s3,
                 partListCache := (partListCache w)(cp \<mapsto> newParts s3),
                 keyListCache := (keyListCache w)(cp \<mapsto> ks)\<rparr>"
    unfolding repeat_returns by blast
  let ?n = "int (length vs)"
  from keysAndValues_length [OF kv] have len: "length ks = length items" "length vs = length items"
    by simp_all
  have f1: "filled ?n (cachedParts w cp) (document w) s1"
    by (rule filled_reconcile [OF r filled_start])
  from filled_addRemaining [OF a f1] have f2: "filled ?n (cachedParts w cp) (document w) s2"
    and fin: "newTail s2 < newHead s2" by simp_all
  from filled_done [OF f2 fin] obtain ps where
    ps: "newParts s2 = map Ref ps" "int (length ps) = ?n"
    and src: "\<forall>p\<in>set ps. Ref p \<in> set (cachedParts w cp) \<or> Created p \<in> set (since (document w) (doc s2))"
    by blast
  from removeRemaining_keeps [OF rm] have same: "newParts s3 = newParts s2"
    and ext: "extends (doc s2) (doc s3)" by simp_all
  have g: "grows (document w) (doc s2)" using f2 by (simp add: filled_def)
  have "list_all (\<lambda>p. Ref p \<in> set (cachedParts w cp)
                          \<or> Created p \<in> set (since (document w) (doc s3))) ps"
    using src since_trans [OF g ext] by (auto simp: list_all_iff)
  with ps same len w' show ?thesis by (auto intro!: exI [of _ ps])
qed

text \<open>
  C10. After a call of repeat that returns, the part list and the key list stored for the
  container part have the length of the iterable, and the part list holds a part at
  every index (no hole, no null): each one was in the previous part list or was created
  by this call.
\<close>

theorem repeat_persists_live_parts:
  assumes "repeat items keyFnOrTemplate template onRemove (OfNodePart cp) w = Some (Inr w')"
  shows "\<exists>ps ks. partListCache w' cp = Some (map Ref ps) \<and> keyListCache w' cp = Some ks
           \<and> length ps = length items \<and> length ks = length items
           \<and> list_all (\<lambda>p. Ref p \<in> set (cachedParts w cp)
                          \<or> Created p \<in> set (since (document w) (document w'))) ps"
  using assms by (rule repeat_live_parts)

theorem repeat_persists_live_parts_witness:
  "\<exists>w'. keyedRender [1, 2, 3] None firstRender = Some (Inr w')
        \<and> (\<exists>ps ks. partListCache w' listPart = Some (map Ref ps) \<and> keyListCache w' listPart = Some ks
              \<and> length ps = 3 \<and> length ks = 3)"
proof -
  have "returned (keyedRender [1, 2, 3] None firstRender)" by code_simp
  then obtain w' where w': "keyedRender [1, 2, 3] None firstRender = Some (Inr w')"
    by (auto simp: returned_def split: option.splits sum.splits)
  from repeat_persists_live_parts [OF w' [unfolded keyedRender_def]] w' show ?thesis
    by auto
qed






section \<open>The usage error, the removal handler, and the swap\<close>

text \<open>
  C6 (as amended). Called on a binding position that is not a NodePart, repeat throws at
  once, whatever the items, the key function, the template and the handler are; the
  message of the error is "repeat can only be used in text bindings", and the state at
  the \<open>throw\<close> is the state the call found: the DOM (its trace included, so no helper
  was called) and the two caches are unchanged.
\<close>

theorem repeat_rejects_other_parts:
  "\<not> isNodePart containerPart \<Longrightarrow>
   repeat items keyFnOrTemplate template onRemove containerPart w
     = Some (Inl (Error ''repeat can only be used in text bindings'', w))"
  by (cases containerPart) (simp_all add: repeat_def isNodePart_def Let_def)

theorem repeat_rejects_other_parts_witness:
  "\<not> isNodePart AttributePart
   \<and> repeat [1, 2 :: int] (Some (\<lambda>x i. Num x)) (Some (\<lambda>x i. Num x)) None AttributePart firstRender
       = Some (Inl (Error ''repeat can only be used in text bindings'', firstRender))"
proof -
  have h: "\<not> isNodePart AttributePart" by (simp add: isNodePart_def)
  from repeat_rejects_other_parts [OF h] h show ?thesis by simp
qed

text \<open>
  C6 as stated fails on the message: the error thrown on an attribute binding does not say
  "can only be used for list/child content".
\<close>

theorem repeat_message_counterexample:
  "(case repeat [1, 2 :: int] (Some (\<lambda>x i. Num x)) (Some (\<lambda>x i. Num x)) None AttributePart firstRender of
      Some (Inl (Error msg, w)) \<Rightarrow> \<not> mentions msg ''can only be used for list/child content''
    | _ \<Rightarrow> False)"
  by (simp add: repeat_def Let_def)

text \<open>
  C2. With a handler that does not call \<open>preventDefault\<close>, a non-marker node should be
  removed from its container. On a \<open>div\<close> holding a marker, a text node and a marker,
  the call throws a NotFoundError instead and removes nothing (at the \<open>throw\<close> the
  \<open>div\<close> has its three children): \<open>token.commit()\<close> passes
  \<open>(container, target)\<close> to \<open>commitRemoveNode(node, container)\<close>, so the text node is
  asked to remove the \<open>div\<close>. Without a handler the same range is removed.
\<close>

theorem handler_removal_throws:
  "thrown (removeNodesWithRemovalHandler oneText (Some 0) (Some 1) (Some 3) (Some proceed))
     = Some NotFoundError
   \<and> map_option (map_sum (\<lambda>(e, d). (e, childNodes d 0)) (\<lambda>d. childNodes d 0))
        (removeNodesWithRemovalHandler oneText (Some 0) (Some 1) (Some 3) (Some proceed))
     = Some (Inl (NotFoundError, [1, 2, 3]))
   \<and> map_option (map_sum fst (\<lambda>d. childNodes d 0))
        (removeNodesWithRemovalHandler oneText (Some 0) (Some 1) (Some 3) None)
     = Some (Inr [3])"
  by code_simp

text \<open>
  C7. The walk throws "illegal node mutation" when the current node becomes null before
  the end node is reached. At commit time a missing container should give the same
  error, but \<open>commitRemoveNode\<close> tests its second parameter, which receives the target: a
  token without a container throws a TypeError (the target is asked to remove null).
\<close>

theorem commit_without_container:
  "removalWalk d c None (Some e) h = Some (Inl (Error ''illegal node mutation'', d))
   \<and> tokenCommit oneText \<lparr>target = 2, container = None\<rparr> = Inl (TypeError, oneText)
   \<and> thrown (removeNodesWithRemovalHandler oneText None (Some 2) (Some 3) (Some proceed)) = Some TypeError"
proof -
  have a: "removalWalk d c None (Some e) h = Some (Inl (Error ''illegal node mutation'', d))"
    by (subst removalWalk.simps) simp
  have b: "tokenCommit oneText \<lparr>target = 2, container = None\<rparr> = Inl (TypeError, oneText)"
    by (simp add: tokenCommit_def commitRemoveNode_def)
  have c: "thrown (removeNodesWithRemovalHandler oneText None (Some 2) (Some 3) (Some proceed)) = Some TypeError"
    by code_simp
  show ?thesis using a b c by simp
qed

text \<open>
  C3 as stated fails on the branch: with old keys 1, 2, 3 and new keys 1, 3, 2 the maps
  from key to index are never generated.
\<close>

theorem swap_generates_no_maps_counterexample:
  "(case andThen (keyedRender [1, 2, 3] None firstRender) (keyedRender [1, 3, 2] None) of
      Some (Inr w) \<Rightarrow> MapsGenerated \<notin> set (trace (document w))
    | _ \<Rightarrow> False)"
  by code_simp

text \<open>
  C3 (as amended). With old keys 1, 2, 3 and new keys 1, 3, 2 the pass matches 1 at the
  heads, then finds the old head 2 at the new tail: the part of 2 is updated and moved
  before the container's end marker, and 3 matches at the heads. The three parts are
  reused, one part is moved, none is created, and the children of the container are the
  ranges of the parts of 1, 3 and 2, in that order.
\<close>

theorem swap_moves_one_part:
  "observe (keyedRender [1, 2, 3] None firstRender)
     = Some (Inr ([1, 3, 5, 4, 6, 8, 7, 9, 11, 10, 2],
          [Created \<lparr>startNode = 3, endNode = 4\<rparr>, Updated \<lparr>startNode = 3, endNode = 4\<rparr> (Num 1),
           Created \<lparr>startNode = 6, endNode = 7\<rparr>, Updated \<lparr>startNode = 6, endNode = 7\<rparr> (Num 2),
           Created \<lparr>startNode = 9, endNode = 10\<rparr>, Updated \<lparr>startNode = 9, endNode = 10\<rparr> (Num 3)],
          Some [Ref \<lparr>startNode = 3, endNode = 4\<rparr>, Ref \<lparr>startNode = 6, endNode = 7\<rparr>,
                Ref \<lparr>startNode = 9, endNode = 10\<rparr>],
          Some [Num 1, Num 2, Num 3]))
   \<and> secondPass (keyedRender [1, 2, 3] None) (keyedRender [1, 3, 2] None) firstRender
     = Some ([Updated \<lparr>startNode = 3, endNode = 4\<rparr> (Num 1),
              Updated \<lparr>startNode = 6, endNode = 7\<rparr> (Num 2),
              Moved \<lparr>startNode = 6, endNode = 7\<rparr>,
              Updated \<lparr>startNode = 9, endNode = 10\<rparr> (Num 3)],
             Some [Ref \<lparr>startNode = 3, endNode = 4\<rparr>, Ref \<lparr>startNode = 9, endNode = 10\<rparr>,
                   Ref \<lparr>startNode = 6, endNode = 7\<rparr>],
             [1, 3, 12, 4, 9, 14, 10, 6, 13, 7, 2])"
  by code_simp

section \<open>Node ranges in a well-formed container\<close>

lemma first_simps [simp]: "first [] = None" "first (x # xs) = Some x"
  by (simp_all add: first_def)


lemma next_in_at: "distinct (A @ x # B) \<Longrightarrow> next_in (A @ x # B) x = first B"
proof (induction A)
  case Nil
  then show ?case by (cases B) simp_all
next
  case (Cons a A)
  then have "a \<noteq> x" by auto
  moreover obtain y ys where "A @ x # B = y # ys" by (cases "A @ x # B") auto
  ultimately show ?case using Cons by simp
qed

lemma tidyD:
  assumes "tidy d c"
  shows "distinct (childNodes d c)" "c \<notin> set (childNodes d c)" "c < nextId d"
    "\<And>n. n \<in> set (childNodes d c) \<Longrightarrow> parentNode d n = Some c"
    "\<And>n. n \<in> set (childNodes d c) \<Longrightarrow> n < nextId d"
  using assms by (auto simp: tidy_def)

lemma nextSibling_at:
  assumes "tidy d c" and "childNodes d c = A @ x # B"
  shows "nextSibling d x = first B"
proof -
  have "parentNode d x = Some c" using assms by (simp add: tidy_def)
  moreover have "distinct (A @ x # B)" using assms by (simp add: tidy_def)
  ultimately show ?thesis using assms(2) by (simp add: nextSibling_def next_in_at)
qed

lemma removeAll_at: "distinct (A @ x # B) \<Longrightarrow> removeAll x (A @ x # B) = A @ B"
  by (simp add: removeAll_id)

lemma removeChild_at:
  assumes t: "tidy d c" and k: "childNodes d c = A @ x # B"
  shows "\<exists>d'. removeChild d c x = Inr d' \<and> childNodes d' c = A @ B \<and> tidy d' c
              \<and> nodeKind d' = nodeKind d \<and> nextId d' = nextId d"
proof -
  let ?d' = "d\<lparr>childNodes := (childNodes d)(c := removeAll x (childNodes d c)),
               parentNode := (parentNode d)(x := None)\<rparr>"
  have p: "parentNode d x = Some c" using t k by (simp add: tidy_def)
  have dist: "distinct (A @ x # B)" using t k by (simp add: tidy_def)
  have ra: "removeAll x (childNodes d c) = A @ B" unfolding k by (rule removeAll_at [OF dist])
  have r: "removeChild d c x = Inr ?d'" using p by (simp add: removeChild_def)
  have kids: "childNodes ?d' c = A @ B" using ra by simp
  have "tidy ?d' c"
    using t dist unfolding tidy_def kids by (auto simp: k)
  with r kids show ?thesis by simp
qed








lemma first_neq: "distinct (x # R @ B) \<Longrightarrow> Some x \<noteq> first B"
  by (cases B) auto

lemma removeNodes_range:
  assumes "tidy d c" and "childNodes d c = A @ R @ B"
  shows "\<exists>d'. removeNodes d (Some c) (first (R @ B)) (first B) = Some (Inr d')
              \<and> childNodes d' c = A @ B \<and> tidy d' c
              \<and> nodeKind d' = nodeKind d \<and> nextId d' = nextId d"
  using assms
proof (induction R arbitrary: d)
  case Nil
  then show ?case by (subst removeNodes.simps) simp
next
  case (Cons x R)
  have dist: "distinct (A @ (x # R) @ B)" using Cons.prems by (simp add: tidy_def)
  then have ne: "Some x \<noteq> first B" by (intro first_neq [of x R B]) simp
  have k: "childNodes d c = A @ x # (R @ B)" using Cons.prems by simp
  from removeChild_at [OF Cons.prems(1) k] obtain d1 where
    r: "removeChild d c x = Inr d1" and k1: "childNodes d1 c = A @ R @ B" and t1: "tidy d1 c"
    and f1: "nodeKind d1 = nodeKind d" "nextId d1 = nextId d" by blast
  from Cons.IH [OF t1 k1] obtain d' where
    rec: "removeNodes d1 (Some c) (first (R @ B)) (first B) = Some (Inr d')"
    and res: "childNodes d' c = A @ B" "tidy d' c" "nodeKind d' = nodeKind d1" "nextId d' = nextId d1"
    by blast
  have "removeNodes d (Some c) (first ((x # R) @ B)) (first B) = Some (Inr d')"
    using ne r rec nextSibling_at [OF Cons.prems(1) k]
    by (subst removeNodes.simps) (simp add: Let_def)
  with res f1 show ?case by simp
qed




section \<open>Parts in a well-formed container\<close>

lemma logEvent_fields [simp]:
  "childNodes (logEvent e d) = childNodes d" "parentNode (logEvent e d) = parentNode d"
  "nodeKind (logEvent e d) = nodeKind d" "nextId (logEvent e d) = nextId d"
  "trace (logEvent e d) = trace d @ [e]"
  by (simp_all add: logEvent_def)

lemma tidy_logEvent [simp]: "tidy (logEvent e d) c = tidy d c"
  by (simp add: tidy_def)

lemma nextSibling_logEvent [simp]: "nextSibling (logEvent e d) n = nextSibling d n"
  by (simp add: nextSibling_def split: option.splits)

lemma isMarker_logEvent [simp]: "isMarker (logEvent e d) n = isMarker d n"
  by (simp add: isMarker_def)






lemma removePart_plain:
  assumes t: "tidy d c" and k: "childNodes d c = A @ startNode p # C @ endNode p # B"
  shows "\<exists>d'. removePart d p None = Some (Inr d')
              \<and> childNodes d' c = A @ B \<and> tidy d' c
              \<and> nodeKind d' = nodeKind d \<and> nextId d' = nextId d"
proof -
  let ?s = "startNode p" and ?e = "endNode p"
  have ps: "parentNode d ?s = Some c" using t k by (simp add: tidy_def)
  have k0: "childNodes d c = (A @ ?s # C) @ ?e # B" using k by simp
  have ns: "nextSibling d ?e = first B" by (rule nextSibling_at [OF t k0])
  have k1: "childNodes (logEvent (Removed p) d) c = A @ (?s # C @ [?e]) @ B" using k by simp
  have t1: "tidy (logEvent (Removed p) d) c" using t by simp
  from removeNodes_range [OF t1 k1] obtain d' where
    r: "removeNodes (logEvent (Removed p) d) (Some c) (first ((?s # C @ [?e]) @ B)) (first B) = Some (Inr d')"
    and res: "childNodes d' c = A @ B" "tidy d' c"
      "nodeKind d' = nodeKind (logEvent (Removed p) d)" "nextId d' = nextId (logEvent (Removed p) d)"
    by blast
  have "removePart d p None = Some (Inr d')"
    using r ns ps by (simp add: removePart_def removeNodesWithRemovalHandler_def)
  with res show ?thesis by simp
qed

lemma tokenCommit_tidy:
  assumes t: "tidy d c" and x: "x \<in> set (childNodes d c)"
    and r: "tokenCommit d \<lparr>target = x, container = Some c\<rparr> = Inr d'"
  shows "childNodes d' c = childNodes d c \<and> tidy d' c \<and> nodeKind d' = nodeKind d
       \<and> nextId d' = nextId d \<and> trace d' = trace d"
proof -
  have xc: "x \<noteq> c" using t x by (auto simp: tidy_def)
  from r have d': "d' = d\<lparr>childNodes := (childNodes d)(x := removeAll c (childNodes d x)),
                 parentNode := (parentNode d)(c := None)\<rparr>"
    by (auto simp: tokenCommit_def commitRemoveNode_def removeChild_def split: if_splits)
  have "tidy d' c" using t xc unfolding tidy_def d' by auto
  then show ?thesis using xc by (simp add: d')
qed

text \<open>
  A walk with a handler that leaves the DOM alone, when it returns: the children of the
  container are as before, and the handler was notified of the nodes of the range that
  are not markers, in order.
\<close>

lemma removalWalk_range:
  assumes "tidy d c" and "childNodes d c = A @ R @ B" and q: "quiet h"
    and "removalWalk d (Some c) (first (R @ B)) (first B) h = Some (Inr d')"
  shows "childNodes d' c = A @ R @ B \<and> tidy d' c \<and> nodeKind d' = nodeKind d
       \<and> nextId d' = nextId d
       \<and> trace d' = trace d @ map Notified (filter (\<lambda>n. \<not> isMarker d n) R)"
  using assms(1,2,4)
proof (induction R arbitrary: d A)
  case Nil
  then show ?case by (subst (asm) removalWalk.simps) simp
next
  case (Cons x R)
  have dist: "distinct (A @ (x # R) @ B)" using Cons.prems by (simp add: tidy_def)
  then have "distinct (x # R @ B)" by simp
  then have ne: "Some x \<noteq> first B" by (rule first_neq)
  have k: "childNodes d c = A @ x # (R @ B)" using Cons.prems by simp
  have nx: "nextSibling d x = first (R @ B)" by (rule nextSibling_at [OF Cons.prems(1) k])
  have k': "childNodes d c = (A @ [x]) @ R @ B" using Cons.prems by simp
  have xin: "x \<in> set (childNodes d c)" using k by simp
  let ?tok = "\<lparr>target = x, container = Some c\<rparr>"
  let ?d1 = "logEvent (Notified x) (d\<lparr>trace := trace d\<rparr>)"
  have d1: "logEvent (Notified x) ((snd (h ?tok d))\<lparr>trace := trace d\<rparr>) = ?d1"
    using q by (simp add: quiet_def)
  have d1': "?d1 = logEvent (Notified x) d" by simp
  show ?case
  proof (cases "isMarker d x")
    case True
    with Cons.prems(3) ne nx have "removalWalk d (Some c) (first (R @ B)) (first B) h = Some (Inr d')"
      by (subst (asm) removalWalk.simps) (simp add: Let_def)
    from Cons.IH [OF Cons.prems(1) k' this] True show ?thesis by simp
  next
    case nm: False
    show ?thesis
    proof (cases "fst (h ?tok d)")
      case True
      with Cons.prems(3) ne nx nm have w: "removalWalk (logEvent (Notified x) d) (Some c) (first (R @ B)) (first B) h = Some (Inr d')"
        by (subst (asm) removalWalk.simps) (simp add: Let_def d1 del: logEvent_fields)
      have t1: "tidy (logEvent (Notified x) d) c" using Cons.prems(1) by simp
      have k1: "childNodes (logEvent (Notified x) d) c = (A @ [x]) @ R @ B" using k' by simp
      from Cons.IH [OF t1 k1 w] nm show ?thesis by (simp add: isMarker_def)
    next
      case False
      with Cons.prems(3) ne nx nm obtain d2 where
        tc: "tokenCommit (logEvent (Notified x) d) ?tok = Inr d2"
        and w: "removalWalk d2 (Some c) (first (R @ B)) (first B) h = Some (Inr d')"
        by (subst (asm) removalWalk.simps) (auto simp: Let_def d1 split: sum.splits simp del: logEvent_fields)
      have t1: "tidy (logEvent (Notified x) d) c" using Cons.prems(1) by simp
      have x1: "x \<in> set (childNodes (logEvent (Notified x) d) c)" using xin by simp
      from tokenCommit_tidy [OF t1 x1 tc] have
        f2: "childNodes d2 c = (A @ [x]) @ R @ B" "tidy d2 c" "nodeKind d2 = nodeKind d"
          "nextId d2 = nextId d" "trace d2 = trace d @ [Notified x]"
        using k' by simp_all
      from Cons.IH [OF f2(2) f2(1) w] f2 nm show ?thesis by (simp add: isMarker_def)
    qed
  qed
qed

lemma removePart_handler:
  assumes t: "tidy d c" and k: "childNodes d c = A @ startNode p # C @ endNode p # B"
    and q: "quiet h" and r: "removePart d p (Some h) = Some (Inr d')"
  shows "childNodes d' c = childNodes d c \<and> tidy d' c \<and> nodeKind d' = nodeKind d
       \<and> nextId d' = nextId d
       \<and> trace d' = trace d @ Removed p
           # map Notified (filter (\<lambda>n. \<not> isMarker d n) (startNode p # C @ [endNode p]))"
proof -
  let ?s = "startNode p" and ?e = "endNode p"
  have ps: "parentNode d ?s = Some c" using t k by (simp add: tidy_def)
  have k0: "childNodes d c = (A @ ?s # C) @ ?e # B" using k by simp
  have ns: "nextSibling d ?e = first B" by (rule nextSibling_at [OF t k0])
  have k1: "childNodes (logEvent (Removed p) d) c = A @ (?s # C @ [?e]) @ B" using k by simp
  have t1: "tidy (logEvent (Removed p) d) c" using t by simp
  from r have w: "removalWalk (logEvent (Removed p) d) (Some c) (first ((?s # C @ [?e]) @ B)) (first B) h
      = Some (Inr d')"
    using ns ps by (simp add: removePart_def removeNodesWithRemovalHandler_def)
  from removalWalk_range [OF t1 k1 q w] k show ?thesis by (simp add: isMarker_def)
qed

section \<open>The order of the ranges\<close>

lemma markers_simps [simp]:
  "markers [] = []" "markers (p # ps) = startNode p # endNode p # markers ps"
  "markers (ps @ qs) = markers ps @ markers qs"
  by (simp_all add: markers_def)






lemma filter_fresh: "\<forall>n\<in>set C. n \<notin> S \<Longrightarrow> filter (\<lambda>n. n \<in> S) C = []"
  by (induction C) auto









section \<open>Removing a part\<close>

text \<open>
  C9. With a removal handler (one that leaves the DOM alone), a call of \<open>removePart\<close> that
  returns has removed no marker and has notified the handler of no marker: the handler
  was called exactly for the nodes between the part's markers that are not empty
  comments, and the part's start and end markers are still children of the container.
  Without a handler the whole range, markers included, is removed.
\<close>

theorem removePart_keeps_markers:
  assumes "tidy d c" and "childNodes d c = A @ startNode p # C @ endNode p # B"
    and "isMarker d (startNode p)" and "isMarker d (endNode p)"
    and "quiet h" and "removePart d p (Some h) = Some (Inr d')"
  shows "since d d' = Removed p # map Notified (filter (\<lambda>n. \<not> isMarker d n) C)
       \<and> startNode p \<in> set (childNodes d' c) \<and> endNode p \<in> set (childNodes d' c)
       \<and> filter (isMarker d) (childNodes d' c) = filter (isMarker d) (childNodes d c)
       \<and> (\<exists>d''. removePart d p None = Some (Inr d'') \<and> childNodes d'' c = A @ B)"
proof -
  from removePart_handler [OF assms(1,2,5,6)] have
    k: "childNodes d' c = childNodes d c"
    and tr: "trace d' = trace d @ Removed p
           # map Notified (filter (\<lambda>n. \<not> isMarker d n) (startNode p # C @ [endNode p]))"
    by simp_all
  from removePart_plain [OF assms(1,2)] obtain d'' where
    "removePart d p None = Some (Inr d'')" "childNodes d'' c = A @ B" by blast
  with k tr assms(2,3,4) show ?thesis by (auto simp: since_def)
qed

theorem removePart_keeps_markers_witness:
  "tidy oneText 0 \<and> childNodes oneText 0 = [] @ 1 # [2] @ 3 # []
   \<and> isMarker oneText 1 \<and> isMarker oneText 3 \<and> quiet prevent
   \<and> (\<exists>d'. removePart oneText \<lparr>startNode = 1, endNode = 3\<rparr> (Some prevent) = Some (Inr d')
          \<and> since oneText d' = [Removed \<lparr>startNode = 1, endNode = 3\<rparr>, Notified 2]
          \<and> childNodes d' 0 = [1, 2, 3])
   \<and> map_option (map_sum id (\<lambda>d. childNodes d 0))
        (removePart oneText \<lparr>startNode = 1, endNode = 3\<rparr> None) = Some (Inr [])"
proof -
  let ?p = "\<lparr>startNode = 1, endNode = 3\<rparr>"
  have t: "tidy oneText 0" by (simp add: tidy_def oneText_def)
  have k: "childNodes oneText 0 = [] @ startNode ?p # [2] @ endNode ?p # []" by (simp add: oneText_def)
  have m: "isMarker oneText (startNode ?p)" "isMarker oneText (endNode ?p)"
    by (simp_all add: isMarker_def oneText_def)
  have q: "quiet prevent" by (simp add: quiet_def prevent_def)
  have "returned (removePart oneText ?p (Some prevent))" by code_simp
  then obtain d' where r: "removePart oneText ?p (Some prevent) = Some (Inr d')"
    by (auto simp: returned_def split: option.splits sum.splits)
  from removePart_keeps_markers [OF t k m q r] obtain d'' where
    s: "since oneText d' = Removed ?p # map Notified (filter (\<lambda>n. \<not> isMarker oneText n) [2])"
    and rest: "filter (isMarker oneText) (childNodes d' 0) = filter (isMarker oneText) (childNodes oneText 0)"
      "removePart oneText ?p None = Some (Inr d'')" "childNodes d'' 0 = [] @ []"
    by blast
  have k': "childNodes d' 0 = [1, 2, 3]"
    using removePart_handler [OF t k q r] by (simp add: oneText_def)
  have nm: "\<not> isMarker oneText 2" by (simp add: isMarker_def oneText_def)
  from t k m q r s rest k' nm show ?thesis by simp
qed

section \<open>The order of the ranges through a pass\<close>

text \<open>Segments of a part array, and the key-to-index maps.\<close>

lemma parts_in_empty [simp]: "j < i \<Longrightarrow> parts_in xs i j = []"
  by (simp add: parts_in_def)
















text \<open>
  An iteration of the main loop keeps the ranges in order: a matched part stays where it
  is or is moved to the edge of the window it now belongs to, a created part is
  inserted before the old head, a removed part leaves the list.
\<close>

lemma inOrder_logEvent [simp]: "inOrder (logEvent e d) c cp ps = inOrder d c cp ps"
  by (simp add: inOrder_def)

lemma tidy_ensureMaps [simp]: "tidy (doc (ensureMaps oks nks s)) c = tidy (doc s) c"
  by (simp add: ensureMaps_def)

lemma inOrder_ensureMaps [simp]:
  "inOrder (doc (ensureMaps oks nks s)) c cp ps = inOrder (doc s) c cp ps"
  by (simp add: ensureMaps_def)































end
